theory Spec2Isabelle
  imports Complex_Main "HOL-Library.Char_ord" "HOL-Library.List_Lexorder" "HOL-Library.Product_Lexorder"
    "HOL-Library.Word"
begin

unbundle bit_operations_syntax

section \<open>Python values shared by the models\<close>

text \<open>
  Every exception the modelled functions can raise is a value of \<open>py_error\<close>;
  a function that may raise returns \<open>py_error + 'a\<close>, with \<open>Inl\<close> the raised
  exception. \<open>SystemExit\<close> stands for \<^verbatim>\<open>sys.exit(1)\<close>.
\<close>

datatype py_error = ValueError | IndexError | KeyError | TypeError | NameError
  | RuntimeError | AttributeError | OSError | SystemExit

text \<open>
  A Python \<^verbatim>\<open>for\<close> loop whose body may raise: the state is threaded through the
  items, and the first exception ends the loop.
\<close>

fun for_loop :: "('s \<Rightarrow> 'a \<Rightarrow> py_error + 's) \<Rightarrow> 's \<Rightarrow> 'a list \<Rightarrow> py_error + 's" where
  "for_loop body s [] = Inr s"
| "for_loop body s (x # xs) =
     (case body s x of Inl e \<Rightarrow> Inl e | Inr s' \<Rightarrow> for_loop body s' xs)"

text \<open>\<^verbatim>\<open>xs[i] = v\<close> on a list: a negative index counts from the end, an index out
  of range raises IndexError.\<close>

definition list_setitem :: "'a list \<Rightarrow> int \<Rightarrow> 'a \<Rightarrow> py_error + 'a list" where
  "list_setitem xs i v =
     (if 0 \<le> i \<and> i < int (length xs) then Inr (xs[nat i := v])
      else if i < 0 \<and> - int (length xs) \<le> i then Inr (xs[nat (int (length xs) + i) := v])
      else Inl IndexError)"

text \<open>\<^verbatim>\<open>xs.index(v)\<close>: the position of the first element equal to \<open>v\<close>, ValueError
  when there is none.\<close>

fun list_index :: "'a list \<Rightarrow> 'a \<Rightarrow> py_error + nat" where
  "list_index [] v = Inl ValueError"
| "list_index (x # xs) v =
     (if x = v then Inr 0
      else case list_index xs v of Inl e \<Rightarrow> Inl e | Inr i \<Rightarrow> Inr (Suc i))"

text \<open>\<^verbatim>\<open>max(...)\<close> of a sequence of integers: ValueError on the empty sequence.\<close>

fun py_max :: "int list \<Rightarrow> py_error + int" where
  "py_max [] = Inl ValueError"
| "py_max (x # xs) = Inr (fold max xs x)"

section \<open>pascalseg.py: normalize_part_key\<close>

text \<open>
  A raw key is the pair (object index, part short name); a name pair is
  (object name, part name). The dictionary \<open>raw_names\<close> is an association list read
  with \<open>map_of\<close>; its keys are \<open>remdups (map fst raw_names)\<close>. Tuples of an integer
  and a string are sorted lexicographically, strings by code point, as Python sorts them.
\<close>

type_synonym raw_key = "int \<times> string"
type_synonym name_pair = "string \<times> string"

definition dict_keys :: "('k \<times> 'v) list \<Rightarrow> 'k list" where
  "dict_keys d = remdups (map fst d)"

text \<open>The local variables that the loop updates; \<open>npk_part_key\<close> is the local
  \<^verbatim>\<open>part_key\<close>.\<close>

record npk_state =
  object_class_names :: "string list"
  part_class_names :: "string list"
  alias_key :: "name_pair \<rightharpoonup> nat"
  npk_part_key :: "raw_key \<rightharpoonup> nat"

text \<open>The body of the loop over the sorted keys (lines 141 to 153).\<close>

definition npk_body :: "(raw_key \<times> name_pair) list \<Rightarrow> npk_state \<Rightarrow> raw_key \<Rightarrow> py_error + npk_state" where
  "npk_body raw_names s k =
     (case map_of raw_names k of
        None \<Rightarrow> Inl KeyError
      | Some n \<Rightarrow>
         (case list_setitem (object_class_names s) (fst k) (fst n) of
            Inl e \<Rightarrow> Inl e
          | Inr ocn \<Rightarrow>
             (case alias_key s n of
                Some code \<Rightarrow>
                  Inr (s\<lparr>object_class_names := ocn, npk_part_key := (npk_part_key s)(k \<mapsto> code)\<rparr>)
              | None \<Rightarrow>
                 (if snd n \<in> set (part_class_names s) then
                    (case list_index (part_class_names s) (snd n) of
                       Inl e \<Rightarrow> Inl e
                     | Inr code \<Rightarrow>
                         Inr (s\<lparr>object_class_names := ocn,
                                alias_key := (alias_key s)(n \<mapsto> code),
                                npk_part_key := (npk_part_key s)(k \<mapsto> code)\<rparr>))
                  else
                    (let code = length (part_class_names s) in
                     Inr (s\<lparr>object_class_names := ocn,
                            part_class_names := part_class_names s @ [snd n],
                            alias_key := (alias_key s)(n \<mapsto> code),
                            npk_part_key := (npk_part_key s)(k \<mapsto> code)\<rparr>))))))"

definition normalize_part_key ::
  "(raw_key \<times> name_pair) list \<Rightarrow> py_error + (string list \<times> string list \<times> (raw_key \<rightharpoonup> nat))" where
  "normalize_part_key raw_names =
     (case py_max (map fst (dict_keys raw_names)) of
        Inl e \<Rightarrow> Inl e
      | Inr m \<Rightarrow>
         (let object_class_count = m + 1;
              s0 = \<lparr>object_class_names = replicate (nat object_class_count) ''-'',
                    part_class_names = [''-''],
                    alias_key = Map.empty,
                    npk_part_key = Map.empty\<rparr>
          in case for_loop (npk_body raw_names) s0 (sort (dict_keys raw_names)) of
               Inl e \<Rightarrow> Inl e
             | Inr s \<Rightarrow> Inr (object_class_names s, part_class_names s, npk_part_key s)))"

text \<open>The loop invariant: part names are distinct, and every code handed out so far
  indexes the name it was handed out for.\<close>

definition npk_inv :: "(raw_key \<times> name_pair) list \<Rightarrow> npk_state \<Rightarrow> bool" where
  "npk_inv raw s \<longleftrightarrow>
     distinct (part_class_names s) \<and>
     (\<forall>n c. alias_key s n = Some c \<longrightarrow>
        c < length (part_class_names s) \<and> part_class_names s ! c = snd n) \<and>
     (\<forall>k c. npk_part_key s k = Some c \<longrightarrow>
        c < length (part_class_names s) \<and>
        map_option snd (map_of raw k) = Some (part_class_names s ! c))"

text \<open>A small table in the shape of the normalized PASCAL part names.\<close>

definition npk_example :: "(raw_key \<times> name_pair) list" where
  "npk_example =
     [((1, ''engine_2''), (''airplane'', ''engine'')),
      ((1, ''engine_1''), (''airplane'', ''engine'')),
      ((2, ''head''), (''bird'', ''head'')),
      ((3, ''head''), (''cat'', ''head''))]"

section \<open>pascalseg.py: normalize_readable\<close>

text \<open>
  Strings are lists of characters with code points below 256. \<open>py_isspace\<close> is
  \<^verbatim>\<open>str.isspace\<close> on one character: the whitespace code points of that range.
\<close>

definition py_isspace :: "char \<Rightarrow> bool" where
  "py_isspace c \<longleftrightarrow>
     (of_char c :: nat) \<in> {9, 10, 11, 12, 13, 28, 29, 30, 31, 32, 133, 160}"

text \<open>\<^verbatim>\<open>sub in s\<close> on strings: \<open>sub\<close> occurs in \<open>s\<close> as a contiguous
  substring.\<close>

fun py_contains :: "string \<Rightarrow> string \<Rightarrow> bool" where
  "py_contains sub [] = (sub = [])"
| "py_contains sub (c # cs) = (take (length sub) (c # cs) = sub \<or> py_contains sub cs)"

text \<open>
  \<^verbatim>\<open>s.replace(old, new)\<close>: the occurrences of \<open>old\<close> are replaced from left to
  right, the search resuming after each replaced occurrence. With an empty \<open>old\<close>,
  \<open>new\<close> is inserted before every character and at the end.
\<close>

function py_replace :: "string \<Rightarrow> string \<Rightarrow> string \<Rightarrow> string" where
  "py_replace old new [] = (if old = [] then new else [])"
| "py_replace old new (c # cs) =
     (if old = [] then new @ c # py_replace old new cs
      else if take (length old) (c # cs) = old
        then new @ py_replace old new (drop (length old) (c # cs))
      else c # py_replace old new cs)"
  by pat_completeness auto
termination
  by (relation "measure (\<lambda>(old, new, s). length s)") (auto simp: neq_Nil_conv)

text \<open>\<^verbatim>\<open>s.split()\<close> with no argument: the maximal runs of characters that are
  not whitespace. \<open>split_ws cur s\<close> carries the word being read.\<close>

fun split_ws :: "string \<Rightarrow> string \<Rightarrow> string list" where
  "split_ws cur [] = (if cur = [] then [] else [cur])"
| "split_ws cur (c # cs) =
     (if py_isspace c then (if cur = [] then split_ws [] cs else cur # split_ws [] cs)
      else split_ws (cur @ [c]) cs)"

definition py_split :: "string \<Rightarrow> string list" where
  "py_split s = split_ws [] s"

text \<open>\<^verbatim>\<open>sep.join(xs)\<close>.\<close>

fun py_join :: "string \<Rightarrow> string list \<Rightarrow> string" where
  "py_join sep [] = []"
| "py_join sep [x] = x"
| "py_join sep (x # y # ys) = x @ sep @ py_join sep (y # ys)"

text \<open>The table of long names for short part names (lines 165 to 179).\<close>

definition decoded_names :: "(string \<times> string) list" where
  "decoded_names =
     [(''lfho'', ''left front hoof''),
      (''rfho'', ''right front hoof''),
      (''lbho'', ''left back hoof''),
      (''rbho'', ''right back hoof''),
      (''fwheel'', ''front wheel''),
      (''bwheel'', ''back wheel''),
      (''frontside'', ''front side''),
      (''leftside'', ''left side''),
      (''rightside'', ''right side''),
      (''backside'', ''back side''),
      (''roofside'', ''roof side''),
      (''leftmirror'', ''left mirror''),
      (''rightmirror'', ''right mirror'')]"

text \<open>\<open>collapse_adjectives\<close> is \<open>None\<close> or a collection of words.\<close>

definition normalize_readable :: "string \<Rightarrow> string list option \<Rightarrow> string" where
  "normalize_readable name collapse_adjectives =
     (let name1 = (case map_of decoded_names name of Some long \<Rightarrow> long | None \<Rightarrow> name);
          name2 = py_replace ''aeroplane'' ''airplane'' name1
      in case collapse_adjectives of
           None \<Rightarrow> name2
         | Some adjs \<Rightarrow> py_join '' '' (filter (\<lambda>n. n \<notin> set adjs) (py_split name2)))"

text \<open>\<^verbatim>\<open>normalize_all_readable\<close> (lines 157 to 160): both names of every entry are
  normalized.\<close>

definition normalize_all_readable ::
  "('k \<times> string \<times> string) list \<Rightarrow> string list option \<Rightarrow> ('k \<times> string \<times> string) list" where
  "normalize_all_readable raw_keys collapse_adjectives =
     map (\<lambda>(k, (c, p)). (k, (normalize_readable c collapse_adjectives,
                             normalize_readable p collapse_adjectives))) raw_keys"

text \<open>
  Two notions for the proofs. \<open>no_start p w\<close>: the pattern \<open>p\<close> can begin at no
  position of \<open>w\<close>, not even running off the end of \<open>w\<close>. \<open>word_ok w\<close>:
  \<open>w\<close> is a word as \<^verbatim>\<open>split()\<close> yields them, not empty and free of whitespace.
\<close>

fun no_start :: "string \<Rightarrow> string \<Rightarrow> bool" where
  "no_start p [] = True"
| "no_start p (x # w) =
     (take (min (length p) (Suc (length w))) p \<noteq> take (min (length p) (Suc (length w))) (x # w)
      \<and> no_start p w)"

definition word_ok :: "string \<Rightarrow> bool" where
  "word_ok w \<longleftrightarrow> w \<noteq> [] \<and> (\<forall>c\<in>set w. \<not> py_isspace c)"

section \<open>models.py: pixel accuracy with per-sample validity masks\<close>

text \<open>
  Tensors are nested lists. A label tensor of shape \<open>(N, ...)\<close> is a list of \<open>N\<close>
  samples, each the list of its elements (its pixels, the trailing dimensions flattened; a
  scene label has one element per sample). A prediction tensor of shape \<open>(N, C, ...)\<close>
  is a list of \<open>N\<close> samples, each a list of \<open>C\<close> channels, each the list of the scores
  of the sample's pixels. Integer tensors hold \<open>int\<close>: every count below is bounded by
  the number of tensor elements, far from the 64-bit range. A per-sample mask is a list of
  \<open>N\<close> integers.
\<close>

type_synonym 'a tensor2 = "'a list list"
type_synonym 'a tensor3 = "'a list list list"

text \<open>The index of the first maximal element of a non-empty list.\<close>

fun argmax_from :: "'a::linorder \<Rightarrow> nat \<Rightarrow> nat \<Rightarrow> 'a list \<Rightarrow> nat" where
  "argmax_from best bi i [] = bi"
| "argmax_from best bi i (x # xs) =
     (if best < x then argmax_from x i (Suc i) xs else argmax_from best bi (Suc i) xs)"

definition argmax :: "'a::linorder list \<Rightarrow> nat" where
  "argmax xs = argmax_from (hd xs) 0 1 (tl xs)"

text \<open>
  The indices returned by \<^verbatim>\<open>torch.max(pred, dim=1)\<close>: for every pixel of every
  sample, the channel with the highest score, the first one on ties. Reducing a dimension
  of size zero is an error.
\<close>

definition sample_argmax :: "'a::linorder list list \<Rightarrow> py_error + int list" where
  "sample_argmax channels =
     (if channels = [] then Inl RuntimeError
      else Inr (map (\<lambda>p. int (argmax (map (\<lambda>ch. ch ! p) channels)))
                  [0..<length (hd channels)]))"

fun sequence :: "(py_error + 'a) list \<Rightarrow> py_error + 'a list" where
  "sequence [] = Inr []"
| "sequence (x # xs) =
     (case x of Inl e \<Rightarrow> Inl e
      | Inr v \<Rightarrow> (case sequence xs of Inl e \<Rightarrow> Inl e | Inr vs \<Rightarrow> Inr (v # vs)))"

definition torch_max_dim1 :: "'a::linorder tensor3 \<Rightarrow> py_error + int tensor2" where
  "torch_max_dim1 pred = sequence (map sample_argmax pred)"

text \<open>\<^verbatim>\<open>(label != ignore_index).long()\<close>.\<close>

definition ne_long :: "int tensor2 \<Rightarrow> int \<Rightarrow> int tensor2" where
  "ne_long label ignore_index = map (map (\<lambda>v. if v \<noteq> ignore_index then 1 else 0)) label"

text \<open>\<^verbatim>\<open>(preds == label).long()\<close> and the elementwise product, on tensors of one
  shape; tensors of different shapes are an error (broadcasting between them is not
  modelled).\<close>

definition eq_long :: "int tensor2 \<Rightarrow> int tensor2 \<Rightarrow> py_error + int tensor2" where
  "eq_long a b =
     (if map length a = map length b
      then Inr (map2 (map2 (\<lambda>x y. if x = y then 1 else 0)) a b)
      else Inl RuntimeError)"

definition mul_long :: "int tensor2 \<Rightarrow> int tensor2 \<Rightarrow> py_error + int tensor2" where
  "mul_long a b =
     (if map length a = map length b then Inr (map2 (map2 (*)) a b) else Inl RuntimeError)"

text \<open>
  \<^verbatim>\<open>valid *= samples_valid_mask.view([M, 1, ..., 1])\<close>: the mask of \<open>M\<close> entries is
  broadcast along the trailing dimensions. In place, the result keeps the shape of
  \<open>valid\<close>, so \<open>M\<close> is the number of samples, or one.
\<close>

definition imul_mask :: "int tensor2 \<Rightarrow> int list \<Rightarrow> py_error + int tensor2" where
  "imul_mask valid vmask =
     (if length vmask = length valid then Inr (map2 (\<lambda>m row. map (\<lambda>v. v * m) row) vmask valid)
      else if length vmask = 1 then Inr (map (map (\<lambda>v. v * hd vmask)) valid)
      else Inl RuntimeError)"

definition torch_sum :: "int tensor2 \<Rightarrow> int" where
  "torch_sum t = sum_list (map sum_list t)"

text \<open>\<^verbatim>\<open>.long()\<close> on a tensor that is already of type long.\<close>

definition to_long :: "int \<Rightarrow> int" where
  "to_long x = x"

text \<open>\<^verbatim>\<open>get_correct_and_valid_pixels\<close> (lines 59 to 91).\<close>

definition get_correct_and_valid_pixels ::
  "'a::linorder tensor3 \<Rightarrow> int tensor2 \<Rightarrow> int \<Rightarrow> int list option \<Rightarrow> py_error + int \<times> int" where
  "get_correct_and_valid_pixels pred label ignore_index samples_valid_mask =
     (case torch_max_dim1 pred of
        Inl e \<Rightarrow> Inl e
      | Inr preds \<Rightarrow>
         (case (case samples_valid_mask of
                  None \<Rightarrow> Inr (ne_long label ignore_index)
                | Some vmask \<Rightarrow> imul_mask (ne_long label ignore_index) vmask) of
            Inl e \<Rightarrow> Inl e
          | Inr valid \<Rightarrow>
             (case eq_long preds label of
                Inl e \<Rightarrow> Inl e
              | Inr correct \<Rightarrow>
                 (case mul_long valid correct of
                    Inl e \<Rightarrow> Inl e
                  | Inr hit \<Rightarrow> Inr (to_long (torch_sum hit), to_long (torch_sum valid))))))"

text \<open>
  \<^verbatim>\<open>pixel_acc\<close> (lines 19 to 57). \<open>pixel_acc_sums\<close> is its first part, up to
  \<^verbatim>\<open>pixel_sum = torch.sum(valid)\<close>. The function returns either the object passed
  as \<open>missing_score\<close> or a tensor holding the quotient; the quotient is taken over the
  reals, the rounding of the 32-bit floats is not modelled.
\<close>

datatype 'm score = Missing 'm | Accuracy real

definition pixel_acc_sums ::
  "'a::linorder tensor3 \<Rightarrow> int tensor2 \<Rightarrow> int \<Rightarrow> int list option \<Rightarrow> py_error + int \<times> int" where
  "pixel_acc_sums pred label ignore_index samples_valid_mask =
     (case torch_max_dim1 pred of
        Inl e \<Rightarrow> Inl e
      | Inr preds \<Rightarrow>
         (case (case samples_valid_mask of
                  None \<Rightarrow> Inr (ne_long label ignore_index)
                | Some vmask \<Rightarrow> imul_mask (ne_long label ignore_index) vmask) of
            Inl e \<Rightarrow> Inl e
          | Inr valid \<Rightarrow>
             (case eq_long preds label of
                Inl e \<Rightarrow> Inl e
              | Inr correct \<Rightarrow>
                 (case mul_long valid correct of
                    Inl e \<Rightarrow> Inl e
                  | Inr hit \<Rightarrow> Inr (torch_sum hit, torch_sum valid)))))"

definition pixel_acc ::
  "'a::linorder tensor3 \<Rightarrow> int tensor2 \<Rightarrow> int \<Rightarrow> int list option \<Rightarrow> 'm \<Rightarrow> py_error + 'm score" where
  "pixel_acc pred label ignore_index samples_valid_mask missing_score =
     (case pixel_acc_sums pred label ignore_index samples_valid_mask of
        Inl e \<Rightarrow> Inl e
      | Inr (acc_sum, pixel_sum) \<Rightarrow>
          if pixel_sum = 0 then Inr (Missing missing_score)
          else Inr (Accuracy (real_of_int acc_sum / (real_of_int pixel_sum + 1 / 10 ^ 10))))"

text \<open>
  The counts in the words of the specification. For one sample with predicted classes
  \<open>r\<close> and labels \<open>l\<close>: the number of pixels whose label differs from
  \<open>ignore_index\<close>, and the number of those whose predicted class is the label. For a
  batch: the sums over the samples that a mask selects.
\<close>

definition valid_count :: "int list \<Rightarrow> int \<Rightarrow> int" where
  "valid_count l ignore_index = int (length (filter (\<lambda>v. v \<noteq> ignore_index) l))"

definition correct_count :: "int list \<Rightarrow> int list \<Rightarrow> int \<Rightarrow> int" where
  "correct_count r l ignore_index =
     int (length (filter (\<lambda>(a, v). v \<noteq> ignore_index \<and> a = v) (zip r l)))"

definition predicted :: "'a::linorder list list \<Rightarrow> int list" where
  "predicted channels =
     map (\<lambda>p. int (argmax (map (\<lambda>ch. ch ! p) channels))) [0..<length (hd channels)]"

definition select_valid :: "int list \<Rightarrow> 'b list \<Rightarrow> 'b list" where
  "select_valid vmask xs = map snd (filter (\<lambda>(m, x). m = 1) (zip vmask xs))"

definition total_valid :: "int tensor2 \<Rightarrow> int \<Rightarrow> int" where
  "total_valid label ignore_index = sum_list (map (\<lambda>l. valid_count l ignore_index) label)"

definition total_correct :: "'a::linorder tensor3 \<Rightarrow> int tensor2 \<Rightarrow> int \<Rightarrow> int" where
  "total_correct pred label ignore_index =
     sum_list (map2 (\<lambda>x l. correct_count (predicted x) l ignore_index) pred label)"

text \<open>
  Well-shaped inputs: one prediction per label sample, at least one channel, and every
  channel as long as the sample's labels. A validity mask has one entry per sample, each
  0 or 1.
\<close>

definition well_shaped :: "'a tensor3 \<Rightarrow> int tensor2 \<Rightarrow> bool" where
  "well_shaped pred label \<longleftrightarrow>
     length pred = length label \<and>
     list_all2 (\<lambda>x l. x \<noteq> [] \<and> list_all (\<lambda>ch. length ch = length l) x) pred label"

definition validity_mask :: "int list \<Rightarrow> 'b list \<Rightarrow> bool" where
  "validity_mask vmask label \<longleftrightarrow> length vmask = length label \<and> list_all (\<lambda>m. m = 0 \<or> m = 1) vmask"

text \<open>The call with every optional argument left out: \<open>ignore_index\<close> is -1, there is no
  mask, and \<open>missing_score\<close> is 1.0.\<close>

definition pixel_acc_defaults :: "'a::linorder tensor3 \<Rightarrow> int tensor2 \<Rightarrow> py_error + real score" where
  "pixel_acc_defaults pred label = pixel_acc pred label (- 1) None 1"

text \<open>A batch of two samples, two classes and three pixels; the last pixel of the first
  sample is unlabelled.\<close>

definition pred_example :: "int tensor3" where
  "pred_example = [[[1, 5, 2], [3, 4, 2]], [[0, 0, 9], [1, 0, 1]]]"

definition label_example :: "int tensor2" where
  "label_example = [[1, 1, - 1], [0, 0, 0]]"

section \<open>models.py: CrossEntropyLossWithValidationMask\<close>

text \<open>
  Losses are real numbers; the rounding of floating point arithmetic is not modelled. The
  mean of a tensor without elements is not a number.
\<close>

datatype tfloat = NaN | Finite real

definition torch_mean :: "real tensor2 \<Rightarrow> tfloat" where
  "torch_mean t =
     (let xs = concat t in if xs = [] then NaN else Finite (sum_list xs / real (length xs)))"

text \<open>
  \<^verbatim>\<open>validation_mask.view([M, 1, ..., 1]) * loss_unreduced\<close>: the product broadcasts.
  With as many mask entries as samples every element is multiplied by its sample's entry; a
  single entry multiplies every element; a single sample is repeated for every entry.
\<close>

definition mul_mask :: "int list \<Rightarrow> real tensor2 \<Rightarrow> py_error + real tensor2" where
  "mul_mask vmask t =
     (if length vmask = length t
        then Inr (map2 (\<lambda>m row. map (\<lambda>x. real_of_int m * x) row) vmask t)
      else if length vmask = 1 then Inr (map (map (\<lambda>x. real_of_int (hd vmask) * x)) t)
      else if length t = 1 then Inr (map (\<lambda>m. map (\<lambda>x. real_of_int m * x) (hd t)) vmask)
      else Inl RuntimeError)"

text \<open>
  \<^verbatim>\<open>CrossEntropyLossWithValidationMask.forward\<close> (lines 131 to 141). The parent
  class's \<^verbatim>\<open>forward\<close>, the cross entropy of the library with
  \<^verbatim>\<open>reduction='none'\<close>, is the parameter \<open>cross_entropy\<close>: it returns one loss per
  target element, or raises.
\<close>

definition CrossEntropyLossWithValidationMask_forward ::
  "('i \<Rightarrow> int tensor2 \<Rightarrow> py_error + real tensor2) \<Rightarrow> 'i \<Rightarrow> int tensor2 \<Rightarrow> int list
     \<Rightarrow> py_error + tfloat" where
  "CrossEntropyLossWithValidationMask_forward cross_entropy input target validation_mask =
     (case cross_entropy input target of
        Inl e \<Rightarrow> Inl e
      | Inr loss_unreduced \<Rightarrow>
         (case mul_mask validation_mask loss_unreduced of
            Inl e \<Rightarrow> Inl e
          | Inr loss_masked \<Rightarrow> Inr (torch_mean loss_masked)))"

text \<open>An example: two samples of two elements with the losses 1, 2 and 4, 8.\<close>

definition ce_example :: "unit \<Rightarrow> int tensor2 \<Rightarrow> py_error + real tensor2" where
  "ce_example input target = Inr [[1, 2], [4, 8]]"

section \<open>models.py: SegmentationModule\<close>






















section \<open>pascalseg.py: load_parts_segmentation\<close>

text \<open>
  A two-dimensional array is the list of its rows; two arrays have one shape when their rows
  have the same lengths. What \<^verbatim>\<open>loadmat\<close> reads from a file is a parameter: a
  function from file names to the content of the file, a dictionary in which the keys
  \<^verbatim>\<open>anno\<close> and \<^verbatim>\<open>LabelMap\<close> may be present. The annotation holds the object
  instances in file order, each with its class index, its mask and its parts, each part with
  its name and its mask.
\<close>

type_synonym 'a array2 = "'a list list"

record part_anno =
  part_name :: string
  part_mask :: "int array2"

record object_anno =
  class_ind :: int
  obj_mask :: "int array2"
  parts :: "part_anno list"

record mat_file =
  anno :: "object_anno list option"
  LabelMap :: "int array2 option"

text \<open>\<^verbatim>\<open>numpy.zeros(shape, dtype=numpy.int16)\<close> for the shape of a given array.\<close>

definition zeros_like :: "'a array2 \<Rightarrow> 16 word array2" where
  "zeros_like a = map (map (\<lambda>_. 0)) a"

text \<open>
  \<^verbatim>\<open>arr[m.astype(numpy.bool)] = v\<close> on an array of 16-bit integers: the cells where
  the mask is not zero receive \<open>v\<close>, converted to 16 bits; a mask of another shape raises
  IndexError. A value outside the 16-bit range wraps around here (NumPy wraps or raises,
  depending on its version).
\<close>

definition masked_assign :: "16 word array2 \<Rightarrow> int array2 \<Rightarrow> int \<Rightarrow> py_error + 16 word array2" where
  "masked_assign arr m v =
     (if map length m = map length arr
      then Inr (map2 (map2 (\<lambda>b a. if b \<noteq> 0 then word_of_int v else a)) m arr)
      else Inl IndexError)"

text \<open>The inner loop over the parts of one instance (lines 116 to 120).\<close>

definition part_body ::
  "(raw_key \<rightharpoonup> nat) \<Rightarrow> int \<Rightarrow> 16 word array2 \<Rightarrow> part_anno \<Rightarrow> py_error + 16 word array2" where
  "part_body part_key object_ind part_seg part =
     (case part_key (object_ind, part_name part) of
        None \<Rightarrow> Inl KeyError
      | Some part_code \<Rightarrow> masked_assign part_seg (part_mask part) (int part_code))"

text \<open>The outer loop over the instances (lines 111 to 120).\<close>

definition object_body ::
  "(raw_key \<rightharpoonup> nat) \<Rightarrow> 16 word array2 \<times> 16 word array2 \<Rightarrow> object_anno
     \<Rightarrow> py_error + 16 word array2 \<times> 16 word array2" where
  "object_body part_key segs obj =
     (case segs of (object_seg, part_seg) \<Rightarrow>
        (case masked_assign object_seg (obj_mask obj) (class_ind obj) of
           Inl e \<Rightarrow> Inl e
         | Inr object_seg' \<Rightarrow>
            (case for_loop (part_body part_key (class_ind obj)) part_seg (parts obj) of
               Inl e \<Rightarrow> Inl e
             | Inr part_seg' \<Rightarrow> Inr (object_seg', part_seg'))))"

text \<open>A segmentation is the scalar that stands for an empty one, an array of 16-bit
  integers, or an array as it is stored in a file.\<close>

datatype seg_value = Scalar int | Int16Array "16 word array2" | MatArray "int array2"

text \<open>\<^verbatim>\<open>load_parts_segmentation\<close> (lines 96 to 121).\<close>

definition load_parts_segmentation ::
  "(string \<Rightarrow> py_error + mat_file) \<Rightarrow> string \<Rightarrow> (raw_key \<rightharpoonup> nat)
     \<Rightarrow> py_error + seg_value \<times> seg_value" where
  "load_parts_segmentation loadmat filename part_key =
     (case loadmat filename of
        Inl e \<Rightarrow> Inl e
      | Inr d \<Rightarrow>
         (case anno d of
            None \<Rightarrow> Inl KeyError
          | Some objects \<Rightarrow>
              (let instance_count = length objects in
               if instance_count = 0 then Inr (Scalar 0, Scalar 0)
               else
                 (let mask_shape = obj_mask (hd objects);
                      object_seg = zeros_like mask_shape;
                      part_seg = zeros_like mask_shape
                  in case for_loop (object_body part_key) (object_seg, part_seg) objects of
                       Inl e \<Rightarrow> Inl e
                     | Inr (object_seg', part_seg') \<Rightarrow>
                         Inr (Int16Array object_seg', Int16Array part_seg')))))"

text \<open>
  In the words of the specification: among masks given in order, each with a value, the
  value of the last mask that covers the pixel in row \<open>y\<close> and column \<open>x\<close>.
\<close>

definition covers :: "int array2 \<Rightarrow> nat \<Rightarrow> nat \<Rightarrow> bool" where
  "covers m y x \<longleftrightarrow> m ! y ! x \<noteq> 0"

fun last_cover :: "(int array2 \<times> int) list \<Rightarrow> nat \<Rightarrow> nat \<Rightarrow> int option" where
  "last_cover [] y x = None"
| "last_cover ((m, v) # rest) y x =
     (case last_cover rest y x of
        Some w \<Rightarrow> Some w
      | None \<Rightarrow> if covers m y x then Some v else None)"

definition object_layers :: "object_anno list \<Rightarrow> (int array2 \<times> int) list" where
  "object_layers objects = map (\<lambda>obj. (obj_mask obj, class_ind obj)) objects"

definition part_layers :: "(raw_key \<rightharpoonup> nat) \<Rightarrow> object_anno list \<Rightarrow> (int array2 \<times> int) list" where
  "part_layers part_key objects =
     concat (map (\<lambda>obj. map (\<lambda>p. (part_mask p,
                                     int (the (part_key (class_ind obj, part_name p)))))
                            (parts obj)) objects)"

text \<open>
  A well-formed annotation for a part key: every mask has the shape of the first instance's
  mask, every (class index, part name) is a key, and class indices and part codes fit in 16
  bits.
\<close>

definition anno_ok :: "(raw_key \<rightharpoonup> nat) \<Rightarrow> object_anno list \<Rightarrow> bool" where
  "anno_ok part_key objects \<longleftrightarrow>
     list_all (\<lambda>obj.
        map length (obj_mask obj) = map length (obj_mask (hd objects)) \<and>
        - (2 ^ 15) \<le> class_ind obj \<and> class_ind obj < 2 ^ 15 \<and>
        list_all (\<lambda>p.
           map length (part_mask p) = map length (obj_mask (hd objects)) \<and>
           (case part_key (class_ind obj, part_name p) of
              None \<Rightarrow> False
            | Some code \<Rightarrow> code < 2 ^ 15)) (parts obj)) objects"

text \<open>The state of one pixel after a sequence of masked assignments.\<close>

fun pix_after :: "(int array2 \<times> int) list \<Rightarrow> nat \<Rightarrow> nat \<Rightarrow> 16 word \<Rightarrow> 16 word" where
  "pix_after [] y x w = w"
| "pix_after ((m, v) # rest) y x w =
     pix_after rest y x (if m ! y ! x \<noteq> 0 then word_of_int v else w)"

text \<open>An annotation with two instances on a picture of one row and three columns.\<close>

definition anno_example :: "object_anno list" where
  "anno_example =
     [\<lparr>class_ind = 2, obj_mask = [[1, 1, 0]],
       parts = [\<lparr>part_name = ''head'', part_mask = [[1, 0, 0]]\<rparr>,
                \<lparr>part_name = ''tail'', part_mask = [[1, 1, 0]]\<rparr>]\<rparr>,
      \<lparr>class_ind = 5, obj_mask = [[0, 1, 0]],
       parts = [\<lparr>part_name = ''head'', part_mask = [[0, 1, 0]]\<rparr>]\<rparr>]"

definition part_key_example :: "raw_key \<rightharpoonup> nat" where
  "part_key_example = [(2, ''head'') \<mapsto> 1, (2, ''tail'') \<mapsto> 2, (5, ''head'') \<mapsto> 1]"

definition loadmat_example :: "string \<Rightarrow> py_error + mat_file" where
  "loadmat_example filename =
     (if filename = ''/data/part/Annotations_Part/2008_000003.mat''
        then Inr \<lparr>anno = Some anno_example, LabelMap = None\<rparr>
      else if filename = ''/data/part/Annotations_Part/empty.mat''
        then Inr \<lparr>anno = Some [], LabelMap = None\<rparr>
      else if filename = ''/data/context/trainval/2008_000003.mat''
        then Inr \<lparr>anno = None, LabelMap = Some [[7, 7, 9]]\<rparr>
      else Inl OSError)"

section \<open>pascalseg.py: PascalSegmentation.metadata and resolve_segmentation\<close>

text \<open>
  The dictionary \<^verbatim>\<open>part_key\<close> is one object that the instance, every tuple
  returned by \<^verbatim>\<open>metadata\<close> and the functions that receive such a tuple share: each
  of them holds a reference to it, and a write through any reference shows through all of
  them. A store gives the content of every dictionary object. A function that works on the
  store takes it as its last argument and returns, beside its value or the exception it
  raises, the store as it leaves it. Strings and tuples cannot be changed, and the arrays
  and the result dictionary of \<^verbatim>\<open>resolve_segmentation\<close> are made during the call:
  they remain values.
\<close>

type_synonym ref = nat

type_synonym store = "ref \<Rightarrow> (raw_key \<rightharpoonup> nat)"

text \<open>\<^verbatim>\<open>d[k]\<close> for a reference \<open>d\<close> to a dictionary: KeyError when the key is
  missing. The dictionary is read only.\<close>

definition ref_getitem :: "ref \<Rightarrow> raw_key \<Rightarrow> store \<Rightarrow> (py_error + nat) \<times> store" where
  "ref_getitem d k h = (case h d k of None \<Rightarrow> (Inl KeyError, h) | Some v \<Rightarrow> (Inr v, h))"

text \<open>A \<^verbatim>\<open>for\<close> loop whose body works on the store: the store is threaded through
  the items with the loop's own state, and an exception leaves the store as it is then.\<close>

fun for_loop_ref ::
  "('s \<Rightarrow> 'a \<Rightarrow> store \<Rightarrow> (py_error + 's) \<times> store) \<Rightarrow> 's \<Rightarrow> 'a list \<Rightarrow> store
     \<Rightarrow> (py_error + 's) \<times> store" where
  "for_loop_ref body s [] h = (Inr s, h)"
| "for_loop_ref body s (x # xs) h =
     (case body s x h of
        (Inl e, h') \<Rightarrow> (Inl e, h')
      | (Inr s', h') \<Rightarrow> for_loop_ref body s' xs h')"

text \<open>
  \<^verbatim>\<open>load_parts_segmentation\<close> (lines 96 to 121) and its two loops once more, with
  \<^verbatim>\<open>part_key\<close> the reference that the caller passes. \<^verbatim>\<open>loadmat\<close> receives a
  file name and no reference: it has no access to the dictionary.
\<close>

definition part_body_ref ::
  "ref \<Rightarrow> int \<Rightarrow> 16 word array2 \<Rightarrow> part_anno \<Rightarrow> store
     \<Rightarrow> (py_error + 16 word array2) \<times> store" where
  "part_body_ref part_key object_ind part_seg part h =
     (case ref_getitem part_key (object_ind, part_name part) h of
        (Inl e, h') \<Rightarrow> (Inl e, h')
      | (Inr part_code, h') \<Rightarrow>
          (masked_assign part_seg (part_mask part) (int part_code), h'))"

definition object_body_ref ::
  "ref \<Rightarrow> 16 word array2 \<times> 16 word array2 \<Rightarrow> object_anno \<Rightarrow> store
     \<Rightarrow> (py_error + 16 word array2 \<times> 16 word array2) \<times> store" where
  "object_body_ref part_key segs obj h =
     (case segs of (object_seg, part_seg) \<Rightarrow>
        (case masked_assign object_seg (obj_mask obj) (class_ind obj) of
           Inl e \<Rightarrow> (Inl e, h)
         | Inr object_seg' \<Rightarrow>
            (case for_loop_ref (part_body_ref part_key (class_ind obj)) part_seg (parts obj) h of
               (Inl e, h') \<Rightarrow> (Inl e, h')
             | (Inr part_seg', h') \<Rightarrow> (Inr (object_seg', part_seg'), h'))))"

definition load_parts_segmentation_ref ::
  "(string \<Rightarrow> py_error + mat_file) \<Rightarrow> string \<Rightarrow> ref \<Rightarrow> store
     \<Rightarrow> (py_error + seg_value \<times> seg_value) \<times> store" where
  "load_parts_segmentation_ref loadmat filename part_key h =
     (case loadmat filename of
        Inl e \<Rightarrow> (Inl e, h)
      | Inr d \<Rightarrow>
         (case anno d of
            None \<Rightarrow> (Inl KeyError, h)
          | Some objects \<Rightarrow>
              (let instance_count = length objects in
               if instance_count = 0 then (Inr (Scalar 0, Scalar 0), h)
               else
                 (let mask_shape = obj_mask (hd objects);
                      object_seg = zeros_like mask_shape;
                      part_seg = zeros_like mask_shape
                  in case for_loop_ref (object_body_ref part_key) (object_seg, part_seg)
                            objects h of
                       (Inl e, h') \<Rightarrow> (Inl e, h')
                     | (Inr (object_seg', part_seg'), h') \<Rightarrow>
                         (Inr (Int16Array object_seg', Int16Array part_seg'), h')))))"

text \<open>
  The attributes of an instance, named as \<^verbatim>\<open>self.directory\<close> and so on;
  \<^verbatim>\<open>self.part_key\<close> is the reference to the dictionary. The attribute
  \<^verbatim>\<open>segs\<close> is missing when the constructor could not list the annotation directory.
\<close>

record pascal_segmentation =
  self_directory :: string
  self_version :: string
  self_partdir :: string
  self_contextdir :: string
  self_collapse_adjectives :: "string list option"
  self_codes :: "(raw_key \<times> name_pair) list"
  self_part_object_names :: "string list"
  self_part_names :: "string list"
  self_part_key :: ref
  self_object_names :: "string list"
  self_unknown_label :: nat
  self_segs :: "string list option"

text \<open>\<^verbatim>\<open>xs[i]\<close> on a list: a negative index counts from the end.\<close>

definition py_getitem :: "'a list \<Rightarrow> int \<Rightarrow> py_error + 'a" where
  "py_getitem xs i =
     (if 0 \<le> i \<and> i < int (length xs) then Inr (xs ! nat i)
      else if i < 0 \<and> - int (length xs) \<le> i then Inr (xs ! nat (int (length xs) + i))
      else Inl IndexError)"

type_synonym seg_metadata = "string \<times> string \<times> string \<times> ref \<times> string"

text \<open>\<^verbatim>\<open>metadata\<close> (lines 76 to 78).\<close>

definition metadata :: "pascal_segmentation \<Rightarrow> int \<Rightarrow> py_error + seg_metadata" where
  "metadata self i =
     (case self_segs self of
        None \<Rightarrow> Inl AttributeError
      | Some segs \<Rightarrow>
         (case py_getitem segs i of
            Inl e \<Rightarrow> Inl e
          | Inr seg \<Rightarrow>
              Inr (self_directory self, self_partdir self, self_contextdir self,
                   self_part_key self, seg)))"

text \<open>\<^verbatim>\<open>wants\<close> (lines 316 to 319).\<close>

definition wants :: "string \<Rightarrow> string list option \<Rightarrow> bool" where
  "wants what option = (case option of None \<Rightarrow> True | Some opts \<Rightarrow> what \<in> set opts)"

text \<open>\<^verbatim>\<open>os.path.join\<close> on POSIX paths: a component that starts with a slash
  discards what precedes it, and a slash is put between components unless one is there.\<close>

definition join_step :: "string \<Rightarrow> string \<Rightarrow> string" where
  "join_step b path =
     (if b \<noteq> [] \<and> hd b = CHR ''/'' then b
      else if path = [] \<or> last path = CHR ''/'' then path @ b
      else path @ ''/'' @ b)"

definition os_path_join :: "string \<Rightarrow> string list \<Rightarrow> string" where
  "os_path_join a ps = fold join_step ps a"

text \<open>\<^verbatim>\<open>len(numpy.shape(a))\<close> and the last two dimensions of an array with rows.\<close>

definition ndim :: "seg_value \<Rightarrow> nat" where
  "ndim a = (case a of Scalar _ \<Rightarrow> 0 | Int16Array _ \<Rightarrow> 2 | MatArray _ \<Rightarrow> 2)"

definition shape2 :: "seg_value \<Rightarrow> nat \<times> nat" where
  "shape2 a =
     (case a of
        Scalar _ \<Rightarrow> (1, 1)
      | Int16Array rows \<Rightarrow> (length rows, if rows = [] then 0 else length (hd rows))
      | MatArray rows \<Rightarrow> (length rows, if rows = [] then 0 else length (hd rows)))"

text \<open>
  \<^verbatim>\<open>resolve_segmentation\<close> (lines 80 to 93): the pair of the result dictionary, in
  the order of its keys, and the shape.
\<close>

definition resolve_segmentation ::
  "(string \<Rightarrow> py_error + mat_file) \<Rightarrow> seg_metadata \<Rightarrow> string list option \<Rightarrow> store
     \<Rightarrow> (py_error + (string \<times> seg_value) list \<times> (nat \<times> nat)) \<times> store" where
  "resolve_segmentation loadmat m categories h =
     (case m of (directory, partdir, contextdir, part_key, seg_fn) \<Rightarrow>
        (case (if wants ''part'' categories
               then (case load_parts_segmentation_ref loadmat
                            (os_path_join directory [partdir, ''Annotations_Part'', seg_fn])
                            part_key h of
                       (Inl e, h') \<Rightarrow> (Inl e, h')
                     | (Inr (objs, parts_seg), h') \<Rightarrow> (Inr [(''part'', parts_seg)], h'))
               else (Inr [], h)) of
           (Inl e, h') \<Rightarrow> (Inl e, h')
         | (Inr result1, h') \<Rightarrow>
            (case (if wants ''object'' categories
                   then (case loadmat (os_path_join directory [contextdir, ''trainval'', seg_fn]) of
                           Inl e \<Rightarrow> Inl e
                         | Inr d \<Rightarrow>
                            (case LabelMap d of
                               None \<Rightarrow> Inl KeyError
                             | Some a \<Rightarrow> Inr (result1 @ [(''object'', MatArray a)])))
                   else Inr result1) of
               Inl e \<Rightarrow> (Inl e, h')
             | Inr result \<Rightarrow>
                 (let arrs = filter (\<lambda>a. 2 \<le> ndim a) (map snd result);
                      shape = (if arrs \<noteq> [] then shape2 (hd arrs) else (1, 1))
                  in (Inr (result, shape), h')))))"

text \<open>An instance over the example files, and a store with its dictionary and another
  one.\<close>

definition pascal_example :: pascal_segmentation where
  "pascal_example =
     \<lparr>self_directory = ''/data'', self_version = ''VOC2010'', self_partdir = ''part'',
      self_contextdir = ''context'', self_collapse_adjectives = None,
      self_codes = [((2, ''head''), (''bird'', ''head'')), ((2, ''tail''), (''bird'', ''tail'')),
                    ((5, ''head''), (''cat'', ''head''))],
      self_part_object_names = [''-'', ''-'', ''bird'', ''-'', ''-'', ''cat''],
      self_part_names = [''-'', ''head'', ''tail''],
      self_part_key = 4,
      self_object_names = [''-'', ''bird'', ''cat''],
      self_unknown_label = 0,
      self_segs = Some [''2008_000003.mat'', ''empty.mat'']\<rparr>"

definition store_example :: store where
  "store_example =
     (\<lambda>d. if d = 4 then part_key_example
          else if d = 7 then [(1, ''lwing'') \<mapsto> 1]
          else Map.empty)"

section \<open>pascalseg.py: the patterns of load_part2ind\<close>

text \<open>
  The regular expressions of \<^verbatim>\<open>load_part2ind\<close> are matched as Python's
  \<^verbatim>\<open>re.match\<close> matches them: from the start of the line, by backtracking, greedy
  repetitions first and alternatives from left to right. A pattern is a value of \<open>rx\<close>;
  \<open>rx_match\<close> returns every way to match it, the one Python takes first, as the pair of
  the text left over and the groups captured.
\<close>

datatype rx =
    Lit string
  | Chars "char \<Rightarrow> bool"
  | Seq rx rx
  | Alt rx rx
  | Star rx
  | Plus rx
  | Opt rx
  | Group nat rx
  | Backref nat
  | Bol
  | Eol

type_synonym groups = "nat \<rightharpoonup> string"

function rx_match :: "rx \<Rightarrow> nat \<Rightarrow> string \<Rightarrow> groups \<Rightarrow> (string \<times> groups) list" where
  "rx_match (Lit s) whole rest caps =
     (if take (length s) rest = s then [(drop (length s) rest, caps)] else [])"
| "rx_match (Chars p) whole rest caps =
     (case rest of [] \<Rightarrow> [] | c # cs \<Rightarrow> if p c then [(cs, caps)] else [])"
| "rx_match (Seq r1 r2) whole rest caps =
     concat (map (\<lambda>(rest', caps'). rx_match r2 whole rest' caps') (rx_match r1 whole rest caps))"
| "rx_match (Alt r1 r2) whole rest caps = rx_match r1 whole rest caps @ rx_match r2 whole rest caps"
| "rx_match (Star r) whole rest caps =
     concat (map (\<lambda>(rest', caps').
                    if length rest' < length rest then rx_match (Star r) whole rest' caps' else [])
               (rx_match r whole rest caps))
     @ [(rest, caps)]"
| "rx_match (Plus r) whole rest caps =
     concat (map (\<lambda>(rest', caps').
                    (if length rest' < length rest then rx_match (Plus r) whole rest' caps' else [])
                    @ [(rest', caps')])
               (rx_match r whole rest caps))"
| "rx_match (Opt r) whole rest caps = rx_match r whole rest caps @ [(rest, caps)]"
| "rx_match (Group n r) whole rest caps =
     map (\<lambda>(rest', caps'). (rest', caps'(n \<mapsto> take (length rest - length rest') rest)))
       (rx_match r whole rest caps)"
| "rx_match (Backref n) whole rest caps =
     (case caps n of
        None \<Rightarrow> []
      | Some s \<Rightarrow> if take (length s) rest = s then [(drop (length s) rest, caps)] else [])"
| "rx_match Bol whole rest caps = (if length rest = whole then [(rest, caps)] else [])"
| "rx_match Eol whole rest caps =
     (if rest = [] \<or> rest = [CHR 0x0A] then [(rest, caps)] else [])"
  by pat_completeness auto
termination
  by (relation "inv_image (less_than <*lex*> less_than)
                  (\<lambda>(r, whole, rest, caps). (size r, length rest))") auto

text \<open>\<^verbatim>\<open>re.match(pattern, line)\<close>: the groups of the first match, or \<open>None\<close>.
  In the groups, \<open>m k\<close> is \<^verbatim>\<open>m.group(k)\<close>.\<close>

definition re_match :: "rx \<Rightarrow> string \<Rightarrow> groups option" where
  "re_match r line =
     (case rx_match r (length line) line Map.empty of
        [] \<Rightarrow> None
      | (rest, caps) # _ \<Rightarrow> Some caps)"

text \<open>The character classes, for code points below 256: \<^verbatim>\<open>\d\<close>, \<^verbatim>\<open>\w\<close>,
  and \<^verbatim>\<open>\s\<close>, which is \<open>py_isspace\<close>.\<close>

definition is_digit :: "char \<Rightarrow> bool" where
  "is_digit c \<longleftrightarrow> 48 \<le> (of_char c :: nat) \<and> (of_char c :: nat) \<le> 57"

definition is_word :: "char \<Rightarrow> bool" where
  "is_word c \<longleftrightarrow>
     (let n = (of_char c :: nat) in
      (48 \<le> n \<and> n \<le> 57) \<or> (65 \<le> n \<and> n \<le> 90) \<or> (97 \<le> n \<and> n \<le> 122) \<or> n = 95 \<or>
      n \<in> {170, 178, 179, 181, 185, 186, 188, 189, 190} \<or>
      (192 \<le> n \<and> n \<le> 214) \<or> (216 \<le> n \<and> n \<le> 246) \<or> (248 \<le> n \<and> n \<le> 255))"

definition digits :: rx where "digits = Plus (Chars is_digit)"
definition spaces :: rx where "spaces = Star (Chars py_isspace)"

text \<open>A sequence of patterns.\<close>

fun seqs :: "rx list \<Rightarrow> rx" where
  "seqs [] = Lit []"
| "seqs [r] = r"
| "seqs (r # rs) = Seq r (seqs rs)"

text \<open>\<^verbatim>\<open>(?:\s*%\s*(\w[\w ]*\w))?\<close>, the optional long name in group 4.\<close>

definition long_name :: rx where
  "long_name =
     Opt (seqs [spaces, Lit ''%'', spaces,
                Group 4 (seqs [Chars is_word,
                               Star (Chars (\<lambda>c. is_word c \<or> c = CHR '' '')),
                               Chars is_word])])"

text \<open>\<^verbatim>\<open>^% \[([^\]]*)\]\<close> (line 217).\<close>

definition header_rx :: rx where
  "header_rx = seqs [Bol, Lit ''% ['', Group 1 (Star (Chars (\<lambda>c. c \<noteq> CHR '']''))), Lit '']'']"

text \<open>The pattern of lines 222 to 228, as \<^verbatim>\<open>pimap{1}('lwing') = 3; % left wing\<close>.\<close>

definition part_rx :: rx where
  "part_rx =
     seqs [Bol, Lit ''pimap{'', Group 1 digits, Lit ''}'',
           Lit [CHR ''('', CHR 0x27], Group 2 (Star (Chars (\<lambda>c. c \<noteq> CHR 0x27))),
           Lit [CHR 0x27, CHR '')''],
           spaces, Lit ''='', spaces, Group 3 digits, Lit '';'', long_name]"

text \<open>\<^verbatim>\<open>for ii = 1:(\d+)*\<close> (line 239).\<close>

definition for_rx :: rx where
  "for_rx = seqs [Lit ''for ii = 1:'', Star (Group 1 digits)]"

text \<open>The pattern of lines 245 to 254, as
  \<^verbatim>\<open>pimap{1}(sprintf('engine_%d', ii)) = 10+ii; % multiple engines\<close>.\<close>

definition range_rx :: rx where
  "range_rx =
     seqs [Bol, spaces, Lit ''pimap{'', Group 1 digits, Lit ''}'',
           Lit (''(sprintf('' @ [CHR 0x27]),
           Group 2 (Star (Chars (\<lambda>c. c \<noteq> CHR 0x27))), Lit ''_%d'',
           Lit [CHR 0x27, CHR '',''], spaces, Lit ''ii))'',
           spaces, Lit ''='', spaces, Group 3 digits,
           spaces, Lit ''+'', spaces, Lit ''ii'', spaces, Lit '';'', long_name]"

text \<open>\<^verbatim>\<open>% only has si\<close> (line 270).\<close>

definition silhouette_rx :: rx where
  "silhouette_rx = Lit ''% only has si''"

text \<open>The pattern of lines 278 to 282, as \<^verbatim>\<open>keySet = keys(pimap{8});\<close>.\<close>

definition keyset_rx :: rx where
  "keyset_rx =
     seqs [Bol, Group 1 (Alt (Lit ''key'') (Lit ''value'')), Lit ''Set'', spaces, Lit ''='',
           spaces, Backref 1, Lit ''s(pimap{'', Group 2 digits, Lit ''});'']"

text \<open>The pattern of lines 288 to 292, as
  \<^verbatim>\<open>pimap{12} = containers.Map(keySet, valueSet);\<close>; its dot matches every character
  but the newline.\<close>

definition copy_rx :: rx where
  "copy_rx =
     seqs [Bol, Lit ''pimap{'', Group 1 digits, Lit ''}'', spaces, Lit ''='', spaces,
           Lit ''containers'', Chars (\<lambda>c. c \<noteq> CHR 0x0A), Lit ''Map(keySet,'', spaces,
           Lit ''valueSet);'']"

text \<open>The lines that are ignored (lines 300 to 307).\<close>

definition ignore_rx :: rx where
  "ignore_rx =
     Seq Bol
       (Alt (Lit ''function'')
       (Alt (Lit ''pimap ='')
       (Alt (Seq spaces (Lit ''pimap{ii}''))
       (Alt (Lit ''end'')
       (Alt (Seq spaces (Lit ''%''))
       (Alt (Lit ''remove'') Eol))))))"

section \<open>pascalseg.py: load_part2ind\<close>

text \<open>
  \<^verbatim>\<open>int(s)\<close> for a string of decimal digits, which is what the groups \<^verbatim>\<open>(\d+)\<close>
  capture, and \<^verbatim>\<open>'%d' % n\<close> for a number that is not negative.
\<close>

definition digit_val :: "char \<Rightarrow> nat" where
  "digit_val c = of_char c - 48"

definition py_int :: "string \<Rightarrow> py_error + int" where
  "py_int s =
     (if s \<noteq> [] \<and> list_all is_digit s
      then Inr (int (foldl (\<lambda>n c. 10 * n + digit_val c) 0 s))
      else Inl ValueError)"

function decimal :: "nat \<Rightarrow> string" where
  "decimal n =
     (if n < 10 then [''0123456789'' ! n]
      else decimal (n div 10) @ [''0123456789'' ! (n mod 10)])"
  by pat_completeness auto
termination
  by (relation "measure (\<lambda>n. n)") auto

declare decimal.simps [simp del]

text \<open>\<^verbatim>\<open>d[k] = v\<close> on an ordered dictionary: the value of a key that is present is
  replaced where it stands, a new key goes to the end.\<close>

fun dict_setitem :: "('k \<times> 'v) list \<Rightarrow> 'k \<Rightarrow> 'v \<Rightarrow> ('k \<times> 'v) list" where
  "dict_setitem [] k v = [(k, v)]"
| "dict_setitem ((k', v') # d) k v =
     (if k' = k then (k, v) # d else (k', v') # dict_setitem d k v)"

text \<open>
  The variables that live from one line of the file to the next. A variable that has not
  been assigned yet is \<open>None\<close>, and reading it raises NameError. The groups that the code
  assigns to variables stand outside the optional parts of their patterns, so that a
  variable is never bound to Python's \<^verbatim>\<open>None\<close>.
\<close>

record p2i_state =
  object_name :: "string option"
  iteration_count :: "int option"
  object_index :: "int option"
  object_to_copy :: "int option"
  result :: "(raw_key \<times> name_pair) list"

definition read_var :: "'a option \<Rightarrow> py_error + 'a" where
  "read_var v = (case v of None \<Rightarrow> Inl NameError | Some x \<Rightarrow> Inr x)"

text \<open>\<^verbatim>\<open>int(m.group(k))\<close>; a group that took no part in the match is
  \<^verbatim>\<open>None\<close>, which \<^verbatim>\<open>int\<close> refuses with TypeError.\<close>

definition int_group :: "groups \<Rightarrow> nat \<Rightarrow> py_error + int" where
  "int_group m k = (case m k of None \<Rightarrow> Inl TypeError | Some s \<Rightarrow> py_int s)"

text \<open>\<^verbatim>\<open>m.group(4) or part_name\<close> (line 231), and the choice of lines 259 to 261:
  the long name of the comment unless it is missing, empty or says \<open>multiple\<close>.\<close>

definition readable_or :: "string option \<Rightarrow> string \<Rightarrow> string" where
  "readable_or long part_name' =
     (case long of None \<Rightarrow> part_name' | Some l \<Rightarrow> if l = [] then part_name' else l)"

definition readable_multiple :: "string option \<Rightarrow> string \<Rightarrow> string" where
  "readable_multiple long part_name' =
     (case long of
        None \<Rightarrow> part_name'
      | Some l \<Rightarrow> if l \<noteq> [] \<and> \<not> py_contains ''multiple'' l then l else part_name')"

text \<open>Lines 230 to 237: a part of one object.\<close>

definition part_line :: "p2i_state \<Rightarrow> groups \<Rightarrow> py_error + p2i_state" where
  "part_line st m =
     (case m 2 of
        None \<Rightarrow> Inl TypeError
      | Some part_name' \<Rightarrow>
         (let readable_name = readable_or (m 4) part_name'
          in case int_group m 1 of
               Inl e \<Rightarrow> Inl e
             | Inr oi \<Rightarrow>
                (case int_group m 3 of
                   Inl e \<Rightarrow> Inl e
                 | Inr part_index \<Rightarrow>
                    (case read_var (object_name st) of
                       Inl e \<Rightarrow> Inl e
                     | Inr oname \<Rightarrow>
                         Inr (st\<lparr>object_index := Some oi,
                                result := dict_setitem (result st) (oi, part_name')
                                            (oname, readable_name)\<rparr>)))))"

text \<open>Lines 264 to 266: one entry for every number of the range.\<close>

definition range_body ::
  "int \<Rightarrow> string \<Rightarrow> string \<Rightarrow> p2i_state \<Rightarrow> nat \<Rightarrow> py_error + p2i_state" where
  "range_body oi part_name' readable_name st part_index =
     (case read_var (object_name st) of
        Inl e \<Rightarrow> Inl e
      | Inr oname \<Rightarrow>
          Inr (st\<lparr>result := dict_setitem (result st)
                                (oi, part_name' @ ''_'' @ decimal part_index)
                                (oname, readable_name)\<rparr>))"

text \<open>Lines 256 to 267: the parts numbered by a loop of the file.\<close>

definition range_line :: "p2i_state \<Rightarrow> groups \<Rightarrow> py_error + p2i_state" where
  "range_line st m =
     (case m 2 of
        None \<Rightarrow> Inl TypeError
      | Some part_name' \<Rightarrow>
         (let readable_name = readable_multiple (m 4) part_name'
          in case int_group m 1 of
               Inl e \<Rightarrow> Inl e
             | Inr oi \<Rightarrow>
                (case int_group m 3 of
                   Inl e \<Rightarrow> Inl e
                 | Inr first \<Rightarrow>
                    (case read_var (iteration_count st) of
                       Inl e \<Rightarrow> Inl e
                     | Inr n \<Rightarrow>
                         for_loop (range_body oi part_name' readable_name)
                           (st\<lparr>object_index := Some oi\<rparr>) [1..<Suc (nat n)]))))"

text \<open>Lines 272 to 274: an object with a silhouette only takes the next object index.\<close>

definition silhouette_line :: "p2i_state \<Rightarrow> py_error + p2i_state" where
  "silhouette_line st =
     (case read_var (object_index st) of
        Inl e \<Rightarrow> Inl e
      | Inr oi \<Rightarrow>
         (case read_var (object_name st) of
            Inl e \<Rightarrow> Inl e
          | Inr oname \<Rightarrow>
              Inr (st\<lparr>object_index := Some (oi + 1),
                     result := dict_setitem (result st) (oi + 1, ''silhouette'')
                                 (oname, ''silhouette'')\<rparr>)))"

text \<open>Lines 295 to 297: the loop over a copy of the entries.\<close>

definition copy_body :: "int \<Rightarrow> p2i_state \<Rightarrow> raw_key \<times> name_pair \<Rightarrow> py_error + p2i_state" where
  "copy_body oi st item =
     (case item of ((other_obj, part_index), val) \<Rightarrow>
        (case read_var (object_to_copy st) of
           Inl e \<Rightarrow> Inl e
         | Inr otc \<Rightarrow>
            if other_obj = otc
            then (case read_var (object_name st) of
                    Inl e \<Rightarrow> Inl e
                  | Inr oname \<Rightarrow>
                      Inr (st\<lparr>result := dict_setitem (result st) (oi, part_index)
                                            (oname, snd val)\<rparr>))
            else Inr st))"

text \<open>Lines 294 to 298: the parts of one object are copied to another.\<close>

definition copy_line :: "p2i_state \<Rightarrow> groups \<Rightarrow> py_error + p2i_state" where
  "copy_line st m =
     (case int_group m 1 of
        Inl e \<Rightarrow> Inl e
      | Inr oi \<Rightarrow> for_loop (copy_body oi) (st\<lparr>object_index := Some oi\<rparr>) (result st))"

text \<open>
  The body of the loop over the lines (lines 215 to 312). The patterns are tried in the
  order of the source; the line of a silhouette has no \<^verbatim>\<open>continue\<close> and goes on to
  the patterns that follow; a line that no pattern matches ends the program.
\<close>

definition p2i_line :: "p2i_state \<Rightarrow> string \<Rightarrow> py_error + p2i_state" where
  "p2i_line st line =
     (case re_match header_rx line of
        Some m \<Rightarrow> Inr (st\<lparr>object_name := m 1\<rparr>)
      | None \<Rightarrow>
     (case re_match part_rx line of
        Some m \<Rightarrow> part_line st m
      | None \<Rightarrow>
     (case re_match for_rx line of
        Some m \<Rightarrow>
          (case int_group m 1 of
             Inl e \<Rightarrow> Inl e
           | Inr n \<Rightarrow> Inr (st\<lparr>iteration_count := Some n\<rparr>))
      | None \<Rightarrow>
     (case re_match range_rx line of
        Some m \<Rightarrow> range_line st m
      | None \<Rightarrow>
     (case (case re_match silhouette_rx line of
              Some m \<Rightarrow> silhouette_line st
            | None \<Rightarrow> Inr st) of
        Inl e \<Rightarrow> Inl e
      | Inr st1 \<Rightarrow>
     (case re_match keyset_rx line of
        Some m \<Rightarrow>
          (case int_group m 2 of
             Inl e \<Rightarrow> Inl e
           | Inr n \<Rightarrow> Inr (st1\<lparr>object_to_copy := Some n\<rparr>))
      | None \<Rightarrow>
     (case re_match copy_rx line of
        Some m \<Rightarrow> copy_line st1 m
      | None \<Rightarrow>
     (case re_match ignore_rx line of
        Some m \<Rightarrow> Inr st1
      | None \<Rightarrow> Inl SystemExit))))))))"

text \<open>\<^verbatim>\<open>load_part2ind\<close> (lines 204 to 313). \<open>readlines\<close> gives the lines of a file,
  each with its newline, or raises.\<close>

definition load_part2ind ::
  "(string \<Rightarrow> py_error + string list) \<Rightarrow> string \<Rightarrow> py_error + (raw_key \<times> name_pair) list" where
  "load_part2ind readlines part2ind_filename =
     (case readlines part2ind_filename of
        Inl e \<Rightarrow> Inl e
      | Inr lines \<Rightarrow>
         (case for_loop p2i_line
                 \<lparr>object_name = None, iteration_count = None, object_index = None,
                  object_to_copy = None, result = []\<rparr> lines of
            Inl e \<Rightarrow> Inl e
          | Inr st \<Rightarrow> Inr (result st)))"

text \<open>The object names that the headers \<^verbatim>\<open>% [name]\<close> of a file give.\<close>

definition header_names :: "string list \<Rightarrow> string list" where
  "header_names lines =
     List.map_filter (\<lambda>line. case re_match header_rx line of None \<Rightarrow> None | Some m \<Rightarrow> m 1) lines"

text \<open>
  The readable part names that the lines of a file give: the long name of the comment of a
  part's line, or the part's short name where the comment gives none; for a numbered range
  the short name also where the comment says \<open>multiple\<close>; and \<open>silhouette\<close>.
\<close>

definition readable_names :: "string list \<Rightarrow> string list" where
  "readable_names lines =
     ''silhouette'' #
     concat (map (\<lambda>line.
        (case re_match part_rx line of
           None \<Rightarrow> []
         | Some m \<Rightarrow> (case m 2 of None \<Rightarrow> [] | Some pn \<Rightarrow> [readable_or (m 4) pn]))
        @ (case re_match range_rx line of
             None \<Rightarrow> []
           | Some m \<Rightarrow> (case m 2 of None \<Rightarrow> [] | Some pn \<Rightarrow> [readable_multiple (m 4) pn])))
       lines)"

text \<open>The invariant of the loop over the lines, for the sets \<open>H\<close> and \<open>R\<close> of the
  file's object names and readable part names.\<close>

definition p2i_inv :: "string set \<Rightarrow> string set \<Rightarrow> p2i_state \<Rightarrow> bool" where
  "p2i_inv H R st \<longleftrightarrow>
     distinct (map fst (result st)) \<and>
     list_all (\<lambda>e. 0 \<le> fst (fst e) \<and> fst (snd e) \<in> H \<and> snd (snd e) \<in> R) (result st) \<and>
     (case object_name st of None \<Rightarrow> True | Some n \<Rightarrow> n \<in> H) \<and>
     (case object_index st of None \<Rightarrow> True | Some i \<Rightarrow> 0 \<le> i)"

text \<open>
  What follows describes the returned map from the file alone. The kind of a line is the
  first pattern that matches it, in the order in which \<^verbatim>\<open>load_part2ind\<close> tries the
  patterns, with the groups of the match; a line that the patterns before
  \<^verbatim>\<open>% only has si\<close> do not match and that this one matches is the line of a
  silhouette.
\<close>

datatype line_kind = HeaderLine groups | PartLine groups | ForLine groups | RangeLine groups
  | SilhouetteLine | KeysetLine groups | CopyLine groups | OtherLine

definition kind_of :: "string \<Rightarrow> line_kind" where
  "kind_of line =
     (case re_match header_rx line of Some m \<Rightarrow> HeaderLine m | None \<Rightarrow>
     (case re_match part_rx line of Some m \<Rightarrow> PartLine m | None \<Rightarrow>
     (case re_match for_rx line of Some m \<Rightarrow> ForLine m | None \<Rightarrow>
     (case re_match range_rx line of Some m \<Rightarrow> RangeLine m | None \<Rightarrow>
     (case re_match silhouette_rx line of Some m \<Rightarrow> SilhouetteLine | None \<Rightarrow>
     (case re_match keyset_rx line of Some m \<Rightarrow> KeysetLine m | None \<Rightarrow>
     (case re_match copy_rx line of Some m \<Rightarrow> CopyLine m | None \<Rightarrow> OtherLine)))))))"

text \<open>\<^verbatim>\<open>int(m.group(k))\<close> where it is a number.\<close>

definition group_int :: "groups \<Rightarrow> nat \<Rightarrow> int option" where
  "group_int m k = (case int_group m k of Inl e \<Rightarrow> None | Inr n \<Rightarrow> Some n)"

text \<open>
  What is in effect after some lines of the file: the name of the last header
  \<^verbatim>\<open>% [name]\<close>, the count of the last \<^verbatim>\<open>for ii = 1:n\<close>, the object of the last
  \<^verbatim>\<open>keySet = keys(pimap{n})\<close>, and the object index: a part's line, a loop's line
  and a line that copies an object set it to the number in their \<^verbatim>\<open>pimap{n}\<close>, and
  the line of a silhouette raises it by one.
\<close>

definition name_after :: "string list \<Rightarrow> string option" where
  "name_after lines =
     foldl (\<lambda>v line. case kind_of line of HeaderLine m \<Rightarrow> m 1 | _ \<Rightarrow> v) None lines"

definition count_after :: "string list \<Rightarrow> int option" where
  "count_after lines =
     foldl (\<lambda>v line. case kind_of line of ForLine m \<Rightarrow> group_int m 1 | _ \<Rightarrow> v) None lines"

definition source_after :: "string list \<Rightarrow> int option" where
  "source_after lines =
     foldl (\<lambda>v line. case kind_of line of KeysetLine m \<Rightarrow> group_int m 2 | _ \<Rightarrow> v) None lines"

definition index_after :: "string list \<Rightarrow> int option" where
  "index_after lines =
     foldl (\<lambda>v line. case kind_of line of
                        PartLine m \<Rightarrow> group_int m 1
                      | RangeLine m \<Rightarrow> group_int m 1
                      | CopyLine m \<Rightarrow> group_int m 1
                      | SilhouetteLine \<Rightarrow> map_option (\<lambda>n. n + 1) v
                      | _ \<Rightarrow> v) None lines"

text \<open>
  \<open>gives lines i k v\<close>: line \<open>i\<close> of the file (counted from 0) gives the key \<open>k\<close>
  the value \<open>v\<close>. The object name of the value is the name of the last header before the
  line. The key and the part's readable name come from the line:
  \<^item> a part's line \<^verbatim>\<open>pimap{c}('p') = n; % long name\<close> gives the key \<open>(c, p)\<close> the
    long name, or \<open>p\<close> where there is none;
  \<^item> a loop's line \<^verbatim>\<open>pimap{c}(sprintf('p_%d', ii)) = n+ii; % long name\<close> gives
    every key \<open>(c, p_j)\<close>, for \<open>j\<close> from 1 to the count in effect, the long name
    unless it is missing or says \<open>multiple\<close>, and \<open>p\<close> then;
  \<^item> the line of a silhouette gives the key of the object index in effect plus one and
    \<open>silhouette\<close> the value \<open>silhouette\<close>;
  \<^item> a line \<^verbatim>\<open>pimap{c} = containers.Map(keySet, valueSet);\<close> gives the key
    \<open>(c, p)\<close> the readable name that the key \<open>(s, p)\<close> has in the map of the lines
    before it, for the object \<open>s\<close> in effect.
\<close>

definition gives :: "string list \<Rightarrow> nat \<Rightarrow> raw_key \<Rightarrow> name_pair \<Rightarrow> bool" where
  "gives lines i k v \<longleftrightarrow>
     i < length lines \<and> name_after (take i lines) = Some (fst v) \<and>
     (case kind_of (lines ! i) of
        PartLine m \<Rightarrow>
          group_int m 1 = Some (fst k) \<and> m 2 = Some (snd k) \<and>
          snd v = readable_or (m 4) (snd k)
      | RangeLine m \<Rightarrow>
          group_int m 1 = Some (fst k) \<and>
          (case m 2 of
             None \<Rightarrow> False
           | Some base \<Rightarrow>
              (case count_after (take i lines) of
                 None \<Rightarrow> False
               | Some n \<Rightarrow>
                   snd k \<in> set (map (\<lambda>j. base @ ''_'' @ decimal j) [1..<Suc (nat n)]) \<and>
                   snd v = readable_multiple (m 4) base))
      | SilhouetteLine \<Rightarrow>
          map_option (\<lambda>n. n + 1) (index_after (take i lines)) = Some (fst k) \<and>
          snd k = ''silhouette'' \<and> snd v = ''silhouette''
      | CopyLine m \<Rightarrow>
          group_int m 1 = Some (fst k) \<and>
          (case source_after (take i lines) of
             None \<Rightarrow> False
           | Some src \<Rightarrow>
              (case load_part2ind (\<lambda>_. Inr (take i lines)) [] of
                 Inl e \<Rightarrow> False
               | Inr d \<Rightarrow> map_option snd (map_of d (src, snd k)) = Some (snd v)))
      | _ \<Rightarrow> False)"

text \<open>
  \<open>line_ok lines i\<close>: line \<open>i\<close> of the file can be carried out after the lines before
  it. The numbers of its pattern are numbers, and what it reads is there: a part's line needs
  a header before it; a loop's line needs the count of a \<^verbatim>\<open>for\<close> line and, when
  the count is positive, a header; the line of a silhouette needs an object index and a
  header; a line that copies an object needs the lines before it to be in order, a
  \<^verbatim>\<open>keySet\<close> line unless the map of these lines is empty, and a header unless that
  map has no entry of the object to copy; a line of no other kind has to be one of the lines
  that are ignored.
\<close>

definition line_ok :: "string list \<Rightarrow> nat \<Rightarrow> bool" where
  "line_ok lines i \<longleftrightarrow>
     (case kind_of (lines ! i) of
        HeaderLine m \<Rightarrow> True
      | PartLine m \<Rightarrow>
          m 2 \<noteq> None \<and> group_int m 1 \<noteq> None \<and> group_int m 3 \<noteq> None \<and>
          name_after (take i lines) \<noteq> None
      | ForLine m \<Rightarrow> group_int m 1 \<noteq> None
      | RangeLine m \<Rightarrow>
          m 2 \<noteq> None \<and> group_int m 1 \<noteq> None \<and> group_int m 3 \<noteq> None \<and>
          (case count_after (take i lines) of
             None \<Rightarrow> False
           | Some n \<Rightarrow> n \<le> 0 \<or> name_after (take i lines) \<noteq> None)
      | SilhouetteLine \<Rightarrow>
          index_after (take i lines) \<noteq> None \<and> name_after (take i lines) \<noteq> None
      | KeysetLine m \<Rightarrow> group_int m 2 \<noteq> None
      | CopyLine m \<Rightarrow>
          group_int m 1 \<noteq> None \<and>
          (case load_part2ind (\<lambda>_. Inr (take i lines)) [] of
             Inl e \<Rightarrow> False
           | Inr d \<Rightarrow>
               (d = [] \<or> source_after (take i lines) \<noteq> None) \<and>
               (list_all (\<lambda>e. Some (fst (fst e)) \<noteq> source_after (take i lines)) d \<or>
                name_after (take i lines) \<noteq> None))
      | OtherLine \<Rightarrow> re_match ignore_rx (lines ! i) \<noteq> None)"

text \<open>The beginning of \<^verbatim>\<open>part2ind.m\<close>, with the line of the left wing, a loop of two
  engines, an object with a silhouette only, and an object that copies the parts of
  another.\<close>

definition part2ind_example :: "string list" where
  "part2ind_example =
     [''function pimap = part2ind()'' @ [CHR 0x0A],
      ''% [aeroplane]'' @ [CHR 0x0A],
      ''pimap{1}('' @ [CHR 0x27] @ ''lwing'' @ [CHR 0x27] @ '')       = 3;                % left wing''
        @ [CHR 0x0A],
      ''for ii = 1:2'' @ [CHR 0x0A],
      ''    pimap{1}(sprintf('' @ [CHR 0x27] @ ''engine_%d'' @ [CHR 0x27]
        @ '', ii)) = 10+ii; % multiple engines'' @ [CHR 0x0A],
      ''end'' @ [CHR 0x0A],
      [CHR 0x0A],
      ''% [bicycle]'' @ [CHR 0x0A],
      ''% only has sihouette mask'' @ [CHR 0x0A],
      ''% [bird]'' @ [CHR 0x0A],
      ''keySet = keys(pimap{1});'' @ [CHR 0x0A],
      ''valueSet = values(pimap{1});'' @ [CHR 0x0A],
      ''pimap{3} = containers.Map(keySet, valueSet);'' @ [CHR 0x0A]]"

definition readlines_example :: "string \<Rightarrow> py_error + string list" where
  "readlines_example filename =
     (if filename = ''pascal/part2ind.m'' then Inr part2ind_example else Inl OSError)"

section \<open>Properties of normalize_part_key\<close>

lemma list_index_mem:
  "v \<in> set xs \<Longrightarrow> \<exists>i. list_index xs v = Inr i \<and> i < length xs \<and> xs ! i = v"
  by (induction xs) auto

lemma npk_body_cases:
  assumes "npk_body raw s k = Inr s'"
  obtains (aliased) n ocn code where
      "map_of raw k = Some n" "list_setitem (object_class_names s) (fst k) (fst n) = Inr ocn"
      "alias_key s n = Some code"
      "s' = s\<lparr>object_class_names := ocn, npk_part_key := (npk_part_key s)(k \<mapsto> code)\<rparr>"
  | (known) n ocn code where
      "map_of raw k = Some n" "list_setitem (object_class_names s) (fst k) (fst n) = Inr ocn"
      "alias_key s n = None" "snd n \<in> set (part_class_names s)"
      "list_index (part_class_names s) (snd n) = Inr code"
      "s' = s\<lparr>object_class_names := ocn, alias_key := (alias_key s)(n \<mapsto> code),
                npk_part_key := (npk_part_key s)(k \<mapsto> code)\<rparr>"
  | (fresh) n ocn where
      "map_of raw k = Some n" "list_setitem (object_class_names s) (fst k) (fst n) = Inr ocn"
      "alias_key s n = None" "snd n \<notin> set (part_class_names s)"
      "s' = s\<lparr>object_class_names := ocn,
                part_class_names := part_class_names s @ [snd n],
                alias_key := (alias_key s)(n \<mapsto> length (part_class_names s)),
                npk_part_key := (npk_part_key s)(k \<mapsto> length (part_class_names s))\<rparr>"
  using assms unfolding npk_body_def Let_def
  by (auto split: option.splits sum.splits if_splits)

lemma list_setitem_length: "list_setitem xs i v = Inr ys \<Longrightarrow> length ys = length xs"
  by (auto simp: list_setitem_def split: if_splits)

lemma npk_body_inv:
  assumes inv: "npk_inv raw s" and body: "npk_body raw s k = Inr s'"
  shows "npk_inv raw s'"
proof -
  let ?pcn = "part_class_names s"
  from inv have d: "distinct ?pcn"
    and a: "\<And>n c. alias_key s n = Some c \<Longrightarrow> c < length ?pcn \<and> ?pcn ! c = snd n"
    and p: "\<And>k c. npk_part_key s k = Some c \<Longrightarrow>
              c < length ?pcn \<and> map_option snd (map_of raw k) = Some (?pcn ! c)"
    unfolding npk_inv_def by blast+
  from body show ?thesis
  proof (cases rule: npk_body_cases)
    case (aliased n ocn code)
    from a[OF aliased(3)] have c: "code < length ?pcn" "?pcn ! code = snd n" by simp_all
    show ?thesis
      unfolding npk_inv_def aliased(4)
      using d a p c aliased(1) by (cases n) auto
  next
    case (known n ocn code)
    from list_index_mem[OF known(4)] known(5)
    have c: "code < length ?pcn" "?pcn ! code = snd n" by auto
    show ?thesis
      unfolding npk_inv_def known(6)
      using d a p c known(1) by (cases n) auto
  next
    case (fresh n ocn)
    have a': "\<And>m c. alias_key s m = Some c \<Longrightarrow>
                c < Suc (length ?pcn) \<and> (?pcn @ [snd n]) ! c = snd m"
      using a by (simp add: nth_append less_Suc_eq)
    have p': "\<And>k c. npk_part_key s k = Some c \<Longrightarrow>
                c < Suc (length ?pcn) \<and>
                map_option snd (map_of raw k) = Some ((?pcn @ [snd n]) ! c)"
      using p by (simp add: nth_append less_Suc_eq)
    show ?thesis
      unfolding npk_inv_def fresh(5)
      using d a' p' fresh(1,4) by (cases n) auto
  qed
qed

lemma npk_body_keys:
  assumes "npk_body raw s k = Inr s'"
  shows "npk_part_key s' k \<noteq> None \<and>
         (\<forall>k'. npk_part_key s k' \<noteq> None \<longrightarrow> npk_part_key s' k' \<noteq> None) \<and>
         length (object_class_names s') = length (object_class_names s)"
  using assms by (cases rule: npk_body_cases) (auto dest: list_setitem_length)

lemma npk_body_ok:
  assumes "map_of raw k = Some n" "0 \<le> fst k" "fst k < int (length (object_class_names s))"
  shows "\<exists>s'. npk_body raw s k = Inr s'"
  using assms list_index_mem[of "snd n" "part_class_names s"]
  unfolding npk_body_def Let_def list_setitem_def
  by (auto split: option.splits sum.splits)

lemma for_loop_npk:
  assumes "npk_inv raw s"
    and "\<forall>k\<in>set ks. map_of raw k \<noteq> None \<and> 0 \<le> fst k \<and>
           fst k < int (length (object_class_names s))"
  shows "\<exists>s'. for_loop (npk_body raw) s ks = Inr s' \<and> npk_inv raw s' \<and>
           (\<forall>k\<in>set ks. npk_part_key s' k \<noteq> None)"
  using assms
proof (induction ks arbitrary: s)
  case Nil
  then show ?case by simp
next
  case (Cons k ks)
  from Cons.prems(2) obtain n where n: "map_of raw k = Some n" by auto
  from Cons.prems(2) have "0 \<le> fst k" "fst k < int (length (object_class_names s))" by auto
  from npk_body_ok[OF n this] obtain s1 where s1: "npk_body raw s k = Inr s1" ..
  note inv1 = npk_body_inv[OF Cons.prems(1) s1]
  note keys1 = npk_body_keys[OF s1]
  from keys1 Cons.prems(2)
  have "\<forall>k\<in>set ks. map_of raw k \<noteq> None \<and> 0 \<le> fst k \<and>
           fst k < int (length (object_class_names s1))" by simp
  from Cons.IH[OF inv1 this] obtain s' where
    s': "for_loop (npk_body raw) s1 ks = Inr s'" "npk_inv raw s'"
        "\<forall>k\<in>set ks. npk_part_key s' k \<noteq> None" by blast
  have mono: "npk_part_key s' k \<noteq> None"
  proof -
    have "\<And>t t'. for_loop (npk_body raw) t ks = Inr t' \<Longrightarrow> npk_part_key t k \<noteq> None
            \<Longrightarrow> npk_part_key t' k \<noteq> None"
    proof (induction ks)
      case Nil
      then show ?case by simp
    next
      case (Cons a ks)
      from Cons.prems(1) obtain u where u: "npk_body raw t a = Inr u"
        "for_loop (npk_body raw) u ks = Inr t'" by (auto split: sum.splits)
      from npk_body_keys[OF u(1)] Cons.prems(2) have "npk_part_key u k \<noteq> None" by blast
      from Cons.IH[OF u(2) this] show ?case .
    qed
    from this[OF s'(1)] keys1 show ?thesis by blast
  qed
  from s1 s' mono show ?case by simp
qed

lemma fold_max_ge: "(x::int) \<le> fold max xs x \<and> (\<forall>y\<in>set xs. y \<le> fold max xs x)"
proof (induction xs arbitrary: x)
  case Nil
  then show ?case by simp
next
  case (Cons a xs)
  from Cons.IH[of "max a x"] show ?case by auto
qed

lemma py_max_ge:
  assumes "xs \<noteq> []"
  shows "\<exists>m. py_max xs = Inr m \<and> (\<forall>y\<in>set xs. y \<le> m)"
  using assms fold_max_ge by (cases xs) auto

lemma dict_keys_map_of: "k \<in> set (dict_keys d) \<Longrightarrow> map_of d k \<noteq> None"
  by (simp add: dict_keys_def map_of_eq_None_iff)

lemma npk_init_inv:
  "npk_inv raw \<lparr>object_class_names = ocn, part_class_names = [''-''],
     alias_key = Map.empty, npk_part_key = Map.empty\<rparr>"
  by (simp add: npk_inv_def)

text \<open>
  Claim C1, as the code has it. For every non-empty table whose object indices are not
  negative, \<open>normalize_part_key\<close> returns \<open>(object_class_names, part_class_names,
  npk_part_key)\<close> such that every key of the table has a part code, the code is a valid index
  into \<open>part_class_names\<close>, and the name stored there is the key's normalized part name.
  Two keys with the same normalized part name therefore get the same code, whether they
  belong to one object (\<open>engine_1\<close>, \<open>engine_2\<close>) or to two.
\<close>

theorem normalize_part_key_codes:
  assumes ne: "raw_names \<noteq> []"
    and nonneg: "\<forall>k\<in>set (dict_keys raw_names). 0 \<le> fst k"
  shows "\<exists>ocn pcn pk. normalize_part_key raw_names = Inr (ocn, pcn, pk) \<and>
           (\<forall>k\<in>set (dict_keys raw_names). \<exists>code. pk k = Some code \<and> code < length pcn \<and>
              map_option snd (map_of raw_names k) = Some (pcn ! code)) \<and>
           (\<forall>k1\<in>set (dict_keys raw_names). \<forall>k2\<in>set (dict_keys raw_names).
              map_option snd (map_of raw_names k1) = map_option snd (map_of raw_names k2)
              \<longrightarrow> pk k1 = pk k2)"
proof -
  let ?ks = "dict_keys raw_names"
  have "set ?ks = fst ` set raw_names" by (simp add: dict_keys_def)
  with ne have "set ?ks \<noteq> {}" by simp
  then have "map fst ?ks \<noteq> []" by auto
  from py_max_ge[OF this] obtain m where
    m: "py_max (map fst ?ks) = Inr m" "\<forall>k\<in>set ?ks. fst k \<le> m" by auto
  let ?s0 = "\<lparr>object_class_names = replicate (nat (m + 1)) ''-'', part_class_names = [''-''],
     alias_key = Map.empty, npk_part_key = Map.empty\<rparr>"
  have "\<forall>k\<in>set (sort ?ks). map_of raw_names k \<noteq> None \<and> 0 \<le> fst k \<and>
           fst k < int (length (object_class_names ?s0))"
    using m(2) nonneg dict_keys_map_of[of _ raw_names] by auto
  from for_loop_npk[OF npk_init_inv this] obtain s where
    s: "for_loop (npk_body raw_names) ?s0 (sort ?ks) = Inr s" "npk_inv raw_names s"
       "\<forall>k\<in>set ?ks. npk_part_key s k \<noteq> None" by auto
  let ?pcn = "part_class_names s" and ?pk = "npk_part_key s"
  have res: "normalize_part_key raw_names = Inr (object_class_names s, ?pcn, ?pk)"
    by (simp add: normalize_part_key_def m(1) s(1))
  from s(2) have d: "distinct ?pcn"
    and p: "\<And>k c. ?pk k = Some c \<Longrightarrow>
              c < length ?pcn \<and> map_option snd (map_of raw_names k) = Some (?pcn ! c)"
    unfolding npk_inv_def by blast+
  have codes: "\<exists>code. ?pk k = Some code \<and> code < length ?pcn \<and>
              map_option snd (map_of raw_names k) = Some (?pcn ! code)" if "k \<in> set ?ks" for k
    using s(3) p that by blast
  have same: "?pk k1 = ?pk k2"
    if "k1 \<in> set ?ks" "k2 \<in> set ?ks"
      "map_option snd (map_of raw_names k1) = map_option snd (map_of raw_names k2)" for k1 k2
  proof -
    from codes[OF that(1)] obtain c1 where c1: "?pk k1 = Some c1" "c1 < length ?pcn"
      "map_option snd (map_of raw_names k1) = Some (?pcn ! c1)" by blast
    from codes[OF that(2)] obtain c2 where c2: "?pk k2 = Some c2" "c2 < length ?pcn"
      "map_option snd (map_of raw_names k2) = Some (?pcn ! c2)" by blast
    from c1(3) c2(3) that(3) have "?pcn ! c1 = ?pcn ! c2" by simp
    with d c1(2) c2(2) have "c1 = c2" by (simp add: nth_eq_iff_index_eq)
    with c1(1) c2(1) show ?thesis by simp
  qed
  from res codes same show ?thesis by blast
qed

text \<open>The theorem at the example table: both engines share a code, and so do the heads
  of the bird and of the cat.\<close>

theorem normalize_part_key_codes_witness:
  "\<exists>ocn pcn pk. normalize_part_key npk_example = Inr (ocn, pcn, pk) \<and>
     pk (1, ''engine_1'') = pk (1, ''engine_2'') \<and> pk (2, ''head'') = pk (3, ''head'') \<and>
     (\<exists>code. pk (3, ''head'') = Some code \<and> code < length pcn \<and> pcn ! code = ''head'')"
proof -
  have ne: "npk_example \<noteq> []" by (simp add: npk_example_def)
  have keys: "dict_keys npk_example =
     [(1, ''engine_2''), (1, ''engine_1''), (2, ''head''), (3, ''head'')]"
    by (simp add: npk_example_def dict_keys_def)
  have nonneg: "\<forall>k\<in>set (dict_keys npk_example). 0 \<le> fst k" by (simp add: keys)
  have e1: "(1, ''engine_1'') \<in> set (dict_keys npk_example)"
    and e2: "(1, ''engine_2'') \<in> set (dict_keys npk_example)"
    and h2: "(2, ''head'') \<in> set (dict_keys npk_example)"
    and h3: "(3, ''head'') \<in> set (dict_keys npk_example)" by (simp_all add: keys)
  have n1: "map_option snd (map_of npk_example (1, ''engine_1'')) = Some ''engine''"
    and n2: "map_option snd (map_of npk_example (1, ''engine_2'')) = Some ''engine''"
    and n3: "map_option snd (map_of npk_example (2, ''head'')) = Some ''head''"
    and n4: "map_option snd (map_of npk_example (3, ''head'')) = Some ''head''"
    by (simp_all add: npk_example_def)
  from normalize_part_key_codes[OF ne nonneg] obtain ocn pcn pk where
    r: "normalize_part_key npk_example = Inr (ocn, pcn, pk)"
    and c: "\<forall>k\<in>set (dict_keys npk_example). \<exists>code. pk k = Some code \<and> code < length pcn \<and>
              map_option snd (map_of npk_example k) = Some (pcn ! code)"
    and a: "\<forall>k1\<in>set (dict_keys npk_example). \<forall>k2\<in>set (dict_keys npk_example).
              map_option snd (map_of npk_example k1) = map_option snd (map_of npk_example k2)
              \<longrightarrow> pk k1 = pk k2" by blast
  from a e1 e2 n1 n2 have "pk (1, ''engine_1'') = pk (1, ''engine_2'')" by metis
  moreover from a h2 h3 n3 n4 have "pk (2, ''head'') = pk (3, ''head'')" by metis
  moreover from c h3 n4
  have "\<exists>code. pk (3, ''head'') = Some code \<and> code < length pcn \<and> pcn ! code = ''head''"
    by (metis option.inject)
  ultimately show ?thesis using r by blast
qed

text \<open>
  Claim C1 as stated speaks of every finite table. On the empty table \<^verbatim>\<open>max\<close> of
  the empty sequence raises ValueError, and a table whose only object index is \<open>-1\<close>
  makes \<^verbatim>\<open>object_class_names[c] = n[0]\<close> raise IndexError on the empty list.
\<close>

theorem normalize_part_key_empty_counterexample:
  "normalize_part_key [] = Inl ValueError \<and>
   normalize_part_key [((- 1, ''body''), (''airplane'', ''body''))] = Inl IndexError"
  by (simp add: normalize_part_key_def dict_keys_def npk_body_def list_setitem_def)

section \<open>Properties of normalize_readable\<close>

lemma py_contains_iff: "py_contains sub s \<longleftrightarrow> (\<exists>a b. s = a @ sub @ b)"
proof (induction s)
  case Nil
  then show ?case by auto
next
  case (Cons c cs)
  have pre: "take (length sub) (c # cs) = sub \<longleftrightarrow> (\<exists>b. c # cs = sub @ b)"
    by (metis append_eq_conv_conj append_take_drop_id)
  show ?case
  proof
    assume "py_contains sub (c # cs)"
    then consider "take (length sub) (c # cs) = sub" | "py_contains sub cs" by auto
    then show "\<exists>a b. c # cs = a @ sub @ b"
    proof cases
      case 1
      with pre obtain b where "c # cs = sub @ b" by blast
      then have "c # cs = [] @ sub @ b" by simp
      then show ?thesis by blast
    next
      case 2
      with Cons.IH obtain a b where "cs = a @ sub @ b" by blast
      then have "c # cs = (c # a) @ sub @ b" by simp
      then show ?thesis by blast
    qed
  next
    assume "\<exists>a b. c # cs = a @ sub @ b"
    then obtain a b where ab: "c # cs = a @ sub @ b" by blast
    show "py_contains sub (c # cs)"
    proof (cases a)
      case Nil
      with ab have "\<exists>b. c # cs = sub @ b" by auto
      with pre have "take (length sub) (c # cs) = sub" by blast
      then show ?thesis by simp
    next
      case (Cons x a')
      with ab have "cs = a' @ sub @ b" by simp
      with Cons.IH show ?thesis by auto
    qed
  qed
qed

lemma take_prefix_le: "n \<le> length xs \<Longrightarrow> take n (xs @ ys) = take n xs"
  by simp

text \<open>The pattern cannot begin inside w: an occurrence in w @ r lies in r.\<close>
lemma no_start_contains:
  "no_start p w \<Longrightarrow> py_contains p (w @ r) \<Longrightarrow> py_contains p r"
proof (induction w)
  case Nil
  then show ?case by simp
next
  case (Cons x w)
  let ?m = "min (length p) (Suc (length w))"
  from Cons.prems(1) have ne: "take ?m p \<noteq> take ?m (x # w)" and ns: "no_start p w" by simp_all
  have "take (length p) (x # w @ r) \<noteq> p"
  proof
    assume eq: "take (length p) (x # w @ r) = p"
    have "take ?m p = take ?m (take (length p) ((x # w) @ r))" using eq by simp
    also have "\<dots> = take ?m ((x # w) @ r)" by (simp only: take_take) simp
    also have "\<dots> = take ?m (x # w)" by (rule take_prefix_le) simp
    finally show False using ne by simp
  qed
  with Cons.prems(2) have "py_contains p (w @ r)" by simp
  with Cons.IH ns show ?case by blast
qed

text \<open>A prefix w of the replaced string in which new cannot begin is a prefix of the
  original string.\<close>
lemma replace_prefix:
  "old \<noteq> [] \<Longrightarrow> no_start new w \<Longrightarrow> take (length w) (py_replace old new s) = w
     \<Longrightarrow> take (length w) s = w"
proof (induction w arbitrary: s)
  case Nil
  then show ?case by simp
next
  case (Cons x w)
  let ?m = "min (length new) (Suc (length w))"
  from Cons.prems(2) have ne: "take ?m new \<noteq> take ?m (x # w)" and ns: "no_start new w"
    by simp_all
  show ?case
  proof (cases s)
    case Nil
    with Cons.prems show ?thesis by simp
  next
    case s: (Cons c cs)
    show ?thesis
    proof (cases "take (length old) (c # cs) = old")
      case True
      with Cons.prems(1) s
      have r: "py_replace old new s = new @ py_replace old new (drop (length old) (c # cs))"
        by simp
      have "take ?m (x # w) = take ?m (take (length (x # w)) (py_replace old new s))"
        using Cons.prems(3) by simp
      also have "\<dots> = take ?m (py_replace old new s)" by (simp only: take_take) simp
      also have "\<dots> = take ?m new" unfolding r by simp
      finally show ?thesis using ne by simp
    next
      case False
      with Cons.prems(1) s have r: "py_replace old new s = c # py_replace old new cs" by simp
      with Cons.prems(3) have "c = x" "take (length w) (py_replace old new cs) = w" by simp_all
      with Cons.IH[OF Cons.prems(1) ns] s show ?thesis by simp
    qed
  qed
qed

lemma replace_no_occurrence:
  assumes "old \<noteq> []" "no_start new (tl old)" "no_start old new"
  shows "\<not> py_contains old (py_replace old new s)"
proof (induction s rule: length_induct)
  case (1 s)
  show ?case
  proof (cases s)
    case Nil
    with assms(1) show ?thesis by simp
  next
    case s: (Cons c cs)
    show ?thesis
    proof (cases "take (length old) (c # cs) = old")
      case True
      with assms(1) s
      have r: "py_replace old new s = new @ py_replace old new (drop (length old) (c # cs))"
        by simp
      from assms(1) s have "length (drop (length old) (c # cs)) < length s"
        by (cases old) simp_all
      with 1 have "\<not> py_contains old (py_replace old new (drop (length old) (c # cs)))"
        by blast
      with no_start_contains[OF assms(3)] r show ?thesis by auto
    next
      case False
      with assms(1) s have r: "py_replace old new s = c # py_replace old new cs" by simp
      from 1 s have ih: "\<not> py_contains old (py_replace old new cs)" by simp
      have "take (length old) (c # py_replace old new cs) \<noteq> old"
      proof
        assume eq: "take (length old) (c # py_replace old new cs) = old"
        from assms(1) obtain o1 os where old: "old = o1 # os" by (cases old) auto
        with eq have "c = o1" "take (length os) (py_replace old new cs) = os" by simp_all
        moreover from assms(2) old have "no_start new os" by simp
        ultimately have "take (length os) cs = os"
          using replace_prefix[OF assms(1)] by blast
        with \<open>c = o1\<close> old have "take (length old) (c # cs) = old" by simp
        with False show False by simp
      qed
      with ih r show ?thesis by simp
    qed
  qed
qed

lemma aeroplane_gone: "\<not> py_contains ''aeroplane'' (py_replace ''aeroplane'' ''airplane'' s)"
  by (rule replace_no_occurrence) simp_all

text \<open>A string without occurrence of old is left as it is.\<close>
lemma replace_absent: "\<not> py_contains old s \<Longrightarrow> py_replace old new s = s"
proof (induction s)
  case Nil
  then show ?case by auto
next
  case (Cons c cs)
  from Cons.prems have ne: "old \<noteq> []" by auto
  from Cons.prems have "take (length old) (c # cs) \<noteq> old" "\<not> py_contains old cs" by auto
  with Cons.IH ne show ?case by simp
qed

lemma no_start_nth:
  "no_start p w \<Longrightarrow> i < length w \<Longrightarrow>
     take (min (length p) (length w - i)) p \<noteq> take (min (length p) (length w - i)) (drop i w)"
proof (induction w arbitrary: i)
  case Nil
  then show ?case by simp
next
  case (Cons x w)
  show ?case
  proof (cases i)
    case 0
    with Cons.prems(1) show ?thesis by simp
  next
    case (Suc j)
    with Cons.prems have "no_start p w" "j < length w" by simp_all
    from Cons.IH[OF this] Suc show ?thesis by simp
  qed
qed

text \<open>A pattern that cannot begin inside its own tail overlaps no shifted copy of
  itself.\<close>
lemma unbordered_drop:
  assumes "no_start old (tl old)" "0 < k" "k < length old"
  shows "drop k old \<noteq> take (length old - k) old"
proof -
  from assms(2,3) have i: "k - 1 < length (tl old)" by simp
  from assms(2,3) have m: "min (length old) (length (tl old) - (k - 1)) = length old - k"
    by simp
  from assms(2) have d: "drop (k - 1) (tl old) = drop k old"
    by (cases k) (simp_all add: drop_Suc)
  from no_start_nth[OF assms(1) i] show ?thesis unfolding m d by simp
qed

text \<open>The leftmost occurrence is replaced and the search resumes after it.\<close>
lemma replace_first:
  assumes ne: "old \<noteq> []" and ub: "no_start old (tl old)"
  shows "\<not> py_contains old u \<Longrightarrow>
           py_replace old new (u @ old @ v) = u @ new @ py_replace old new v"
proof (induction u)
  case Nil
  from ne obtain c cs where c: "old @ v = c # cs" by (cases old) auto
  have "take (length old) (old @ v) = old" "drop (length old) (old @ v) = v" by simp_all
  with ne show ?case unfolding append_Nil c[symmetric]
    using c by (metis py_replace.simps(2))
next
  case (Cons c u)
  from Cons.prems have nc: "take (length old) (c # u) \<noteq> old" and nu: "\<not> py_contains old u"
    by auto
  have "take (length old) (c # u @ old @ v) \<noteq> old"
  proof
    assume eq: "take (length old) (c # u @ old @ v) = old"
    show False
    proof (cases "length old \<le> length (c # u)")
      case True
      with take_append[of "length old" "c # u" "old @ v"]
      have "take (length old) ((c # u) @ old @ v) = take (length old) (c # u)"
        by (simp del: append_Cons take_Suc_Cons)
      with eq nc show False by simp
    next
      case False
      let ?k = "length (c # u)"
      from False have k: "0 < ?k" "?k < length old" by simp_all
      from False take_append[of "length old" "c # u" "old @ v"]
      have "take (length old) ((c # u) @ old @ v)
          = (c # u) @ take (length old - ?k) (old @ v)"
        by (simp del: append_Cons take_Suc_Cons)
      moreover have "take (length old - ?k) (old @ v) = take (length old - ?k) old"
        using k by simp
      ultimately have "old = (c # u) @ take (length old - ?k) old" using eq by simp
      then have "drop ?k old = drop ?k ((c # u) @ take (length old - ?k) old)" by simp
      then have "drop ?k old = take (length old - ?k) old" by simp
      with unbordered_drop[OF ub k] show False by simp
    qed
  qed
  with ne Cons.IH[OF nu] show ?case by simp
qed

text \<open>Replacing old by new in pieces joined by old joins the pieces by new.\<close>
lemma replace_join:
  assumes ne: "old \<noteq> []" and ub: "no_start old (tl old)"
  shows "(\<forall>p\<in>set pieces. \<not> py_contains old p) \<Longrightarrow>
           py_replace old new (py_join old pieces) = py_join new pieces"
proof (induction pieces rule: induct_list012)
  case 1
  with ne show ?case by simp
next
  case (2 x)
  then show ?case by (simp add: replace_absent)
next
  case (3 x y ys)
  from "3.prems" have nx: "\<not> py_contains old x"
    and rest: "\<forall>p\<in>set (y # ys). \<not> py_contains old p" by simp_all
  have "py_replace old new (py_join old (x # y # ys))
      = py_replace old new (x @ old @ py_join old (y # ys))" by simp
  also have "\<dots> = x @ new @ py_replace old new (py_join old (y # ys))"
    by (rule replace_first[OF ne ub nx])
  also have "\<dots> = x @ new @ py_join new (y # ys)"
    using "3.IH"(2)[OF rest] by simp
  finally show ?case by simp
qed

lemma split_ws_words:
  "(\<forall>c\<in>set cur. \<not> py_isspace c) \<Longrightarrow> w \<in> set (split_ws cur s) \<Longrightarrow>
     word_ok w \<and> (\<exists>a b. cur @ s = a @ w @ b)"
proof (induction s arbitrary: cur)
  case Nil
  then have "w = cur" "cur \<noteq> []" by (auto split: if_splits)
  moreover have "cur @ [] = [] @ cur @ []" by simp
  ultimately show ?case using Nil.prems(1) unfolding word_ok_def by blast
next
  case (Cons c cs)
  show ?case
  proof (cases "py_isspace c")
    case False
    with Cons.prems have "w \<in> set (split_ws (cur @ [c]) cs)"
      and "\<forall>d\<in>set (cur @ [c]). \<not> py_isspace d" by auto
    from Cons.IH[OF this(2) this(1)] show ?thesis by simp
  next
    case True
    from Cons.prems(2) True consider "w = cur" "cur \<noteq> []" | "w \<in> set (split_ws [] cs)"
      by (auto split: if_splits)
    then show ?thesis
    proof cases
      case 1
      have "cur @ c # cs = [] @ cur @ (c # cs)" by simp
      with 1 Cons.prems(1) show ?thesis unfolding word_ok_def by blast
    next
      case 2
      from Cons.IH[OF _ 2] obtain a b where ok: "word_ok w" and "[] @ cs = a @ w @ b" by auto
      then have "cur @ c # cs = (cur @ c # a) @ w @ b" by simp
      with ok show ?thesis by blast
    qed
  qed
qed

lemma split_ws_word:
  "(\<forall>c\<in>set w. \<not> py_isspace c) \<Longrightarrow> split_ws cur (w @ s) = split_ws (cur @ w) s"
  by (induction w arbitrary: cur) simp_all

lemma split_join:
  "(\<forall>w\<in>set ws. word_ok w) \<Longrightarrow> py_split (py_join '' '' ws) = ws"
proof (induction "'' ''" ws rule: py_join.induct)
  case 1
  then show ?case by (simp add: py_split_def)
next
  case (2 x)
  then have "\<forall>c\<in>set x. \<not> py_isspace c" "x \<noteq> []" by (simp_all add: word_ok_def)
  with split_ws_word[of x "[]" "[]"] show ?case by (simp add: py_split_def)
next
  case (3 x y ys)
  then have x: "\<forall>c\<in>set x. \<not> py_isspace c" "x \<noteq> []" by (simp_all add: word_ok_def)
  have sp: "py_isspace CHR '' ''" by (simp add: py_isspace_def)
  from 3 have "split_ws [] (py_join '' '' (y # ys)) = y # ys" by (simp add: py_split_def)
  with split_ws_word[OF x(1), of "[]" "'' '' @ py_join '' '' (y # ys)"] x(2) sp
  show ?case by (simp add: py_split_def)
qed

lemma mem_take_append: "length xs < n \<Longrightarrow> c \<in> set (take n (xs @ c # t))"
  by (cases "n - length xs") auto

lemma contains_across:
  "c \<notin> set sub \<Longrightarrow> py_contains sub (x @ c # t) \<Longrightarrow> py_contains sub x \<or> py_contains sub t"
proof (induction x)
  case Nil
  show ?case
  proof (cases sub)
    case Nil
    then show ?thesis by (cases t) simp_all
  next
    case (Cons s ss)
    with Nil.prems show ?thesis by auto
  qed
next
  case (Cons d x)
  from Cons.prems(2) consider "take (length sub) (d # x @ c # t) = sub" | "py_contains sub (x @ c # t)"
    by auto
  then show ?case
  proof cases
    case 1
    show ?thesis
    proof (cases "length sub \<le> length (d # x)")
      case True
      then have "take (length sub) ((d # x) @ c # t) = take (length sub) (d # x)"
        by (rule take_prefix_le)
      with 1 have "take (length sub) (d # x) = sub" by simp
      then show ?thesis by simp
    next
      case False
      then have "c \<in> set (take (length sub) ((d # x) @ c # t))"
        by (intro mem_take_append) simp
      with 1 Cons.prems(1) show ?thesis by simp
    qed
  next
    case 2
    with Cons.IH[OF Cons.prems(1)] show ?thesis by auto
  qed
qed

lemma contains_join:
  "sub \<noteq> [] \<Longrightarrow> CHR '' '' \<notin> set sub \<Longrightarrow> py_contains sub (py_join '' '' ws)
     \<Longrightarrow> \<exists>w\<in>set ws. py_contains sub w"
proof (induction "'' ''" ws rule: py_join.induct)
  case 1
  then show ?case by simp
next
  case (2 x)
  then show ?case by simp
next
  case (3 x y ys)
  from 3(4) have "py_contains sub (x @ CHR '' '' # py_join '' '' (y # ys))" by simp
  from contains_across[OF 3(3) this] 3(1)[OF 3(2,3)] show ?case by auto
qed

lemma contains_word:
  assumes "w \<in> set (py_split s)" "py_contains sub w"
  shows "py_contains sub s"
proof -
  from split_ws_words[of "[]" w s] assms(1) obtain a b where s: "s = a @ w @ b"
    by (auto simp: py_split_def)
  from assms(2) obtain a' b' where "w = a' @ sub @ b'" unfolding py_contains_iff by blast
  with s have "s = (a @ a') @ sub @ (b' @ b)" by simp
  then show ?thesis unfolding py_contains_iff by blast
qed

lemma decoded_long:
  assumes "map_of decoded_names name = Some long"
  shows "map_of decoded_names long = None \<and> py_replace ''aeroplane'' ''airplane'' long = long"
proof -
  from assms have "(name, long) \<in> set decoded_names" by (rule map_of_SomeD)
  then have "long \<in> set (map snd decoded_names)" by force
  then show ?thesis
    unfolding decoded_names_def by (elim disjE | simp)+
qed

text \<open>
  Claim C3. A short part name listed in \<open>decoded_names\<close> is expanded to its long form:
  without adjective collapsing the result is the long form, and with it the result is that of
  the long form. A name outside the table only has \<open>aeroplane\<close> replaced by
  \<open>airplane\<close>: if the name consists of pieces free of \<open>aeroplane\<close> that are
  joined by \<open>aeroplane\<close>, the result consists of the same pieces joined by
  \<open>airplane\<close>. Whatever the input, no occurrence of \<open>aeroplane\<close> is left in the
  result. When \<open>collapse_adjectives\<close> is given, the result is made of the words of the
  result without collapsing, in their order and joined by single spaces, except those that
  belong to \<open>collapse_adjectives\<close>: these are its words as \<^verbatim>\<open>split()\<close> gives
  them, and no whitespace-separated word of the result belongs to \<open>collapse_adjectives\<close>.
\<close>

theorem normalize_readable_spec:
  "(\<forall>long. map_of decoded_names name = Some long \<longrightarrow>
       normalize_readable name None = long \<and>
       normalize_readable name ca = normalize_readable long ca) \<and>
   (map_of decoded_names name = None \<longrightarrow>
       normalize_readable name None = py_replace ''aeroplane'' ''airplane'' name) \<and>
   (\<forall>pieces. map_of decoded_names name = None \<and> name = py_join ''aeroplane'' pieces \<and>
       (\<forall>p\<in>set pieces. \<not> py_contains ''aeroplane'' p) \<longrightarrow>
       normalize_readable name None = py_join ''airplane'' pieces) \<and>
   \<not> py_contains ''aeroplane'' (normalize_readable name ca) \<and>
   (\<forall>adjs. ca = Some adjs \<longrightarrow>
       normalize_readable name ca
         = py_join '' '' (filter (\<lambda>w. w \<notin> set adjs) (py_split (normalize_readable name None))) \<and>
       py_split (normalize_readable name ca)
         = filter (\<lambda>w. w \<notin> set adjs) (py_split (normalize_readable name None))) \<and>
   (\<forall>adjs. ca = Some adjs \<longrightarrow>
       (\<forall>w\<in>set (py_split (normalize_readable name ca)). w \<notin> set adjs))"
proof (intro conjI allI impI)
  fix long assume "map_of decoded_names name = Some long"
  with decoded_long[OF this]
  show "normalize_readable name None = long"
    and "normalize_readable name ca = normalize_readable long ca"
    by (simp_all add: normalize_readable_def)
next
  assume "map_of decoded_names name = None"
  then show "normalize_readable name None = py_replace ''aeroplane'' ''airplane'' name"
    by (simp add: normalize_readable_def)
next
  fix pieces
  assume a: "map_of decoded_names name = None \<and> name = py_join ''aeroplane'' pieces \<and>
       (\<forall>p\<in>set pieces. \<not> py_contains ''aeroplane'' p)"
  then have n: "map_of decoded_names name = None"
    and j: "name = py_join ''aeroplane'' pieces"
    and p: "\<forall>p\<in>set pieces. \<not> py_contains ''aeroplane'' p" by blast+
  have "py_replace ''aeroplane'' ''airplane'' name = py_join ''airplane'' pieces"
    unfolding j using p by (intro replace_join) simp_all
  with n show "normalize_readable name None = py_join ''airplane'' pieces"
    by (simp add: normalize_readable_def)
next
  let ?n1 = "case map_of decoded_names name of Some long \<Rightarrow> long | None \<Rightarrow> name"
  let ?n2 = "py_replace ''aeroplane'' ''airplane'' ?n1"
  have gone: "\<not> py_contains ''aeroplane'' ?n2" by (rule aeroplane_gone)
  show "\<not> py_contains ''aeroplane'' (normalize_readable name ca)"
  proof (cases ca)
    case None
    with gone show ?thesis by (simp add: normalize_readable_def)
  next
    case (Some adjs)
    let ?ws = "filter (\<lambda>n. n \<notin> set adjs) (py_split ?n2)"
    have r: "normalize_readable name ca = py_join '' '' ?ws"
      using Some by (simp add: normalize_readable_def)
    show ?thesis
    proof
      assume "py_contains ''aeroplane'' (normalize_readable name ca)"
      with r have "py_contains ''aeroplane'' (py_join '' '' ?ws)" by simp
      then have "\<exists>w\<in>set ?ws. py_contains ''aeroplane'' w"
        by (intro contains_join) simp_all
      then obtain w where "w \<in> set (py_split ?n2)" "py_contains ''aeroplane'' w" by auto
      then have "py_contains ''aeroplane'' ?n2" by (rule contains_word)
      with gone show False ..
    qed
  qed
next
  fix adjs assume ca: "ca = Some adjs"
  let ?n1 = "case map_of decoded_names name of Some long \<Rightarrow> long | None \<Rightarrow> name"
  let ?n2 = "py_replace ''aeroplane'' ''airplane'' ?n1"
  let ?ws = "filter (\<lambda>n. n \<notin> set adjs) (py_split ?n2)"
  have n: "normalize_readable name None = ?n2" by (simp add: normalize_readable_def)
  have r: "normalize_readable name ca = py_join '' '' ?ws"
    using ca by (simp add: normalize_readable_def)
  then show "normalize_readable name ca
      = py_join '' '' (filter (\<lambda>w. w \<notin> set adjs) (py_split (normalize_readable name None)))"
    unfolding n .
  have "\<forall>w\<in>set ?ws. word_ok w"
    using split_ws_words[of "[]" _ ?n2] by (auto simp: py_split_def)
  then have "py_split (py_join '' '' ?ws) = ?ws" by (rule split_join)
  with r show "py_split (normalize_readable name ca)
      = filter (\<lambda>w. w \<notin> set adjs) (py_split (normalize_readable name None))"
    unfolding n by simp
next
  fix adjs assume ca: "ca = Some adjs"
  let ?n1 = "case map_of decoded_names name of Some long \<Rightarrow> long | None \<Rightarrow> name"
  let ?n2 = "py_replace ''aeroplane'' ''airplane'' ?n1"
  let ?ws = "filter (\<lambda>n. n \<notin> set adjs) (py_split ?n2)"
  have r: "normalize_readable name ca = py_join '' '' ?ws"
    using ca by (simp add: normalize_readable_def)
  have "\<forall>w\<in>set ?ws. word_ok w"
    using split_ws_words[of "[]" _ ?n2] by (auto simp: py_split_def)
  then have "py_split (py_join '' '' ?ws) = ?ws" by (rule split_join)
  with r show "\<forall>w\<in>set (py_split (normalize_readable name ca)). w \<notin> set adjs" by simp
qed

text \<open>The theorem at \<open>lfho\<close> with the adjectives \<open>left\<close> and \<open>front\<close>,
  and at a name with two occurrences of \<open>aeroplane\<close>; \<open>lwing\<close> is not in the
  table.\<close>

theorem normalize_readable_spec_witness:
  "map_of decoded_names ''lwing'' = None \<and>
   map_of decoded_names ''lfho'' = Some ''left front hoof'' \<and>
   map_of decoded_names ''fwheel'' = Some ''front wheel'' \<and>
   map_of decoded_names ''leftmirror'' = Some ''left mirror'' \<and>
   normalize_readable ''lfho'' None = ''left front hoof'' \<and>
   normalize_readable ''lfho'' (Some [''left'', ''front''])
     = normalize_readable ''left front hoof'' (Some [''left'', ''front'']) \<and>
   \<not> py_contains ''aeroplane'' (normalize_readable ''lfho'' (Some [''left'', ''front''])) \<and>
   ''left'' \<notin> set (py_split (normalize_readable ''lfho'' (Some [''left'', ''front'']))) \<and>
   normalize_readable ''aeroplane wing of aeroplane'' None = ''airplane wing of airplane'' \<and>
   normalize_readable ''lfho'' (Some [''left'', ''front'']) = ''hoof'' \<and>
   py_split (normalize_readable ''lfho'' (Some [''left'', ''front''])) = [''hoof'']"
proof -
  have t: "map_of decoded_names ''lwing'' = None"
    "map_of decoded_names ''lfho'' = Some ''left front hoof''"
    "map_of decoded_names ''fwheel'' = Some ''front wheel''"
    "map_of decoded_names ''leftmirror'' = Some ''left mirror''"
    by (simp_all add: decoded_names_def)
  note n = normalize_readable_spec[of "''lfho''" "Some [''left'', ''front'']"]
  from n t(2) have "normalize_readable ''lfho'' None = ''left front hoof''"
    "normalize_readable ''lfho'' (Some [''left'', ''front''])
       = normalize_readable ''left front hoof'' (Some [''left'', ''front''])" by blast+
  moreover from n
  have "\<not> py_contains ''aeroplane'' (normalize_readable ''lfho'' (Some [''left'', ''front'']))"
    by blast
  moreover from n
  have "\<forall>w\<in>set (py_split (normalize_readable ''lfho'' (Some [''left'', ''front'']))).
          w \<notin> set [''left'', ''front'']" by blast
  then have "''left'' \<notin> set (py_split (normalize_readable ''lfho'' (Some [''left'', ''front''])))"
    by auto
  moreover
  have "map_of decoded_names ''aeroplane wing of aeroplane'' = None"
    by (simp add: decoded_names_def)
  with normalize_readable_spec[of "''aeroplane wing of aeroplane''" None]
  have "\<forall>pieces. ''aeroplane wing of aeroplane'' = py_join ''aeroplane'' pieces \<and>
          (\<forall>p\<in>set pieces. \<not> py_contains ''aeroplane'' p) \<longrightarrow>
          normalize_readable ''aeroplane wing of aeroplane'' None = py_join ''airplane'' pieces"
    by blast
  from this[rule_format, of "[[], '' wing of '', []]"]
  have "normalize_readable ''aeroplane wing of aeroplane'' None = ''airplane wing of airplane''"
    by simp
  moreover
  have sp: "py_split ''left front hoof'' = [''left'', ''front'', ''hoof'']"
    by (simp add: py_split_def py_isspace_def)
  note l = \<open>normalize_readable ''lfho'' None = ''left front hoof''\<close>
  from n have "normalize_readable ''lfho'' (Some [''left'', ''front''])
         = py_join '' '' (filter (\<lambda>w. w \<notin> set [''left'', ''front''])
             (py_split (normalize_readable ''lfho'' None)))"
    by blast
  then have j: "normalize_readable ''lfho'' (Some [''left'', ''front'']) = ''hoof''"
    unfolding l sp by simp
  from n have "py_split (normalize_readable ''lfho'' (Some [''left'', ''front'']))
         = filter (\<lambda>w. w \<notin> set [''left'', ''front''])
             (py_split (normalize_readable ''lfho'' None))"
    by blast
  then have "py_split (normalize_readable ''lfho'' (Some [''left'', ''front''])) = [''hoof'']"
    unfolding l sp by simp
  note j this
  ultimately show ?thesis using t by blast
qed

lemma normalize_readable_examples:
  "normalize_readable ''aeroplane left wing'' (Some [''left'', ''right'']) = ''airplane wing''"
  "normalize_readable ''lfho'' (Some [''left'', ''front'']) = ''hoof''"
  "normalize_readable ''lwing'' None = ''lwing''"
  by (simp_all add: normalize_readable_def decoded_names_def py_split_def py_isspace_def)

section \<open>Properties of the pixel accuracy accounting\<close>

lemma torch_max_dim1_predicted:
  assumes "list_all (\<lambda>x. x \<noteq> []) pred"
  shows "torch_max_dim1 pred = Inr (map predicted pred)"
  using assms unfolding torch_max_dim1_def
  by (induction pred) (simp_all add: sample_argmax_def predicted_def)

lemma well_shaped_nonempty: "well_shaped pred label \<Longrightarrow> list_all (\<lambda>x. x \<noteq> []) pred"
  unfolding well_shaped_def list_all_iff
  by (auto simp: list_all2_conv_all_nth in_set_conv_nth)

lemma well_shaped_lengths:
  assumes "well_shaped pred label"
  shows "map length (map predicted pred) = map length label"
proof -
  from assms
  have "list_all2 (\<lambda>x l. x \<noteq> [] \<and> list_all (\<lambda>ch. length ch = length l) x) pred label"
    by (simp add: well_shaped_def)
  then show ?thesis
  proof (induction pred label rule: list_all2_induct)
    case Nil
    then show ?case by simp
  next
    case (Cons x xs l ls)
    then have "length (hd x) = length l" by (cases x) simp_all
    with Cons show ?case by (simp add: predicted_def)
  qed
qed

lemma row_valid: "sum_list (map (\<lambda>v. (if v \<noteq> ii then 1 else 0) * m) l) = m * valid_count l ii"
  by (induction l) (simp_all add: valid_count_def algebra_simps)

lemma row_correct:
  "length r = length l \<Longrightarrow>
     sum_list (map2 (*) (map (\<lambda>v. (if v \<noteq> ii then 1 else 0) * m) l)
                        (map2 (\<lambda>x y. if x = y then 1 else 0) r l))
       = m * correct_count r l ii"
  by (induction r l rule: list_induct2) (simp_all add: correct_count_def algebra_simps)

text \<open>The sums of the masked batch, sample by sample.\<close>

lemma batch_valid:
  "length ms = length label \<Longrightarrow>
     torch_sum (map2 (\<lambda>m row. map (\<lambda>v. v * m) row) ms (ne_long label ii))
       = sum_list (map2 (\<lambda>m l. m * valid_count l ii) ms label)"
  by (induction ms label rule: list_induct2)
     (simp_all add: torch_sum_def ne_long_def row_valid comp_def)

lemma batch_correct:
  "length ms = length label \<Longrightarrow> map length rs = map length label \<Longrightarrow>
     torch_sum (map2 (map2 (*)) (map2 (\<lambda>m row. map (\<lambda>v. v * m) row) ms (ne_long label ii))
                  (map2 (map2 (\<lambda>x y. if x = y then 1 else 0)) rs label))
       = sum_list (map2 (\<lambda>m (r, l). m * correct_count r l ii) ms (zip rs label))"
proof (induction ms label arbitrary: rs rule: list_induct2)
  case Nil
  then show ?case by (simp add: torch_sum_def ne_long_def)
next
  case (Cons m ms l label)
  from Cons.prems obtain r rs' where rs: "rs = r # rs'" "length r = length l"
    "map length rs' = map length label" by (cases rs) auto
  from Cons.IH[OF rs(3)] row_correct[OF rs(2), of ii m] show ?case
    by (simp add: rs torch_sum_def ne_long_def comp_def)
qed

lemma mask_ones: "map2 (\<lambda>m row. map (\<lambda>v. v * m) row) (replicate (length t) (1::int)) t = t"
  by (induction t) simp_all

lemma lengths_rows: "map length a = map length b \<Longrightarrow> map length (map2 (map2 f) a b) = map length b"
proof (induction a arbitrary: b)
  case Nil
  then show ?case by simp
next
  case (Cons x a)
  then show ?case by (cases b) simp_all
qed

lemma lengths_masked:
  "length ms = length t \<Longrightarrow> map length (map2 (\<lambda>m row. map (\<lambda>v. v * m) row) ms t) = map length t"
  by (induction ms t rule: list_induct2) simp_all

lemma lengths_ne_long: "map length (ne_long label ii) = map length label"
  by (simp add: ne_long_def comp_def)

lemma sums_with_mask:
  assumes ws: "well_shaped pred label" and len: "length ms = length label"
  shows "pixel_acc_sums pred label ii (Some ms) =
           Inr (sum_list (map2 (\<lambda>m (r, l). m * correct_count r l ii) ms
                            (zip (map predicted pred) label)),
                sum_list (map2 (\<lambda>m l. m * valid_count l ii) ms label))"
proof -
  let ?preds = "map predicted pred"
  let ?valid = "map2 (\<lambda>m row. map (\<lambda>v. v * m) row) ms (ne_long label ii)"
  let ?correct = "map2 (map2 (\<lambda>x y. if x = y then 1 else 0)) ?preds label"
  have p: "torch_max_dim1 pred = Inr ?preds"
    by (rule torch_max_dim1_predicted) (rule well_shaped_nonempty[OF ws])
  have pl: "map length ?preds = map length label" by (rule well_shaped_lengths[OF ws])
  have v: "imul_mask (ne_long label ii) ms = Inr ?valid"
    using len by (simp add: imul_mask_def ne_long_def)
  have e: "eq_long ?preds label = Inr ?correct"
    using pl by (simp add: eq_long_def)
  have "length ms = length (ne_long label ii)" using len by (simp add: ne_long_def)
  then have "map length ?valid = map length (ne_long label ii)" by (rule lengths_masked)
  also have "\<dots> = map length label" by (rule lengths_ne_long)
  also have "\<dots> = map length ?correct" by (rule lengths_rows[OF pl, symmetric])
  finally have m: "mul_long ?valid ?correct = Inr (map2 (map2 (*)) ?valid ?correct)"
    by (simp add: mul_long_def)
  show ?thesis
    using batch_valid[OF len, of ii] batch_correct[OF len pl, of ii]
    by (simp add: pixel_acc_sums_def p v e m)
qed

lemma sums_eq: "get_correct_and_valid_pixels pred label ii vm = pixel_acc_sums pred label ii vm"
  unfolding get_correct_and_valid_pixels_def pixel_acc_sums_def to_long_def ..

lemma imul_ones:
  "imul_mask (ne_long label ii) (replicate (length label) 1) = Inr (ne_long label ii)"
proof -
  have "length label = length (ne_long label ii)" by (simp add: ne_long_def)
  with mask_ones[of "ne_long label ii"] show ?thesis by (simp add: imul_mask_def)
qed

lemma sums_no_mask_ones:
  "pixel_acc_sums pred label ii None = pixel_acc_sums pred label ii (Some (replicate (length label) 1))"
  by (simp add: pixel_acc_sums_def imul_ones split: sum.splits)

lemma select_sum:
  "length ms = length ys \<Longrightarrow> list_all (\<lambda>m. m = 0 \<or> m = 1) ms \<Longrightarrow>
     sum_list (map2 (\<lambda>m y. m * f y) ms ys) = sum_list (map f (select_valid ms ys))"
  by (induction ms ys rule: list_induct2) (auto simp: select_valid_def)

lemma select_zip:
  "length ms = length xs \<Longrightarrow> length xs = length ys \<Longrightarrow>
     select_valid ms (zip xs ys) = zip (select_valid ms xs) (select_valid ms ys)"
  by (induction ms xs ys rule: list_induct3) (auto simp: select_valid_def)

lemma select_all: "select_valid (replicate (length ys) 1) ys = ys"
  by (induction ys) (simp_all add: select_valid_def)

lemma select_map: "select_valid ms (map f xs) = map f (select_valid ms xs)"
proof (induction ms arbitrary: xs)
  case Nil
  then show ?case by (simp add: select_valid_def)
next
  case (Cons m ms)
  then show ?case by (cases xs) (auto simp: select_valid_def)
qed

lemma sums_selected:
  assumes ws: "well_shaped pred label" and vm: "validity_mask ms label"
  shows "pixel_acc_sums pred label ii (Some ms) =
           Inr (total_correct (select_valid ms pred) (select_valid ms label) ii,
                total_valid (select_valid ms label) ii)"
proof -
  from vm have len: "length ms = length label" and bits: "list_all (\<lambda>m. m = 0 \<or> m = 1) ms"
    by (simp_all add: validity_mask_def)
  from ws have lp: "length pred = length label" by (simp add: well_shaped_def)
  have v: "sum_list (map2 (\<lambda>m l. m * valid_count l ii) ms label)
          = total_valid (select_valid ms label) ii"
    using select_sum[OF len bits, of "\<lambda>l. valid_count l ii"] by (simp add: total_valid_def)
  have lz: "length ms = length (zip (map predicted pred) label)" using len lp by simp
  have "sum_list (map2 (\<lambda>m (r, l). m * correct_count r l ii) ms (zip (map predicted pred) label))
          = sum_list (map (\<lambda>(r, l). correct_count r l ii)
              (select_valid ms (zip (map predicted pred) label)))"
    using select_sum[OF lz bits, of "\<lambda>(r, l). correct_count r l ii"]
    by (simp add: case_prod_unfold)
  also have "select_valid ms (zip (map predicted pred) label)
          = zip (map predicted (select_valid ms pred)) (select_valid ms label)"
    using select_zip[of ms "map predicted pred" label] len lp by (simp add: select_map)
  also have "sum_list (map (\<lambda>(r, l). correct_count r l ii)
               (zip (map predicted (select_valid ms pred)) (select_valid ms label)))
          = total_correct (select_valid ms pred) (select_valid ms label) ii"
    by (simp add: total_correct_def zip_map1 case_prod_unfold comp_def)
  finally have c: "sum_list (map2 (\<lambda>m (r, l). m * correct_count r l ii) ms
       (zip (map predicted pred) label))
     = total_correct (select_valid ms pred) (select_valid ms label) ii" .
  show ?thesis unfolding sums_with_mask[OF ws len, of ii] c v ..
qed

lemma sums_unmasked:
  assumes ws: "well_shaped pred label"
  shows "pixel_acc_sums pred label ii None =
           Inr (total_correct pred label ii, total_valid label ii)"
proof -
  from ws have lp: "length pred = length label" by (simp add: well_shaped_def)
  have vm: "validity_mask (replicate (length label) 1) label"
    by (simp add: validity_mask_def list_all_iff)
  from sums_selected[OF ws vm, of ii] select_all[of label] select_all[of pred] lp
  show ?thesis by (simp add: sums_no_mask_ones)
qed

lemma well_shaped_select:
  assumes "well_shaped pred label" "length ms = length label"
  shows "well_shaped (select_valid ms pred) (select_valid ms label)"
proof -
  from assms have "length ms = length pred" "length pred = length label"
    and "list_all2 (\<lambda>x l. x \<noteq> [] \<and> list_all (\<lambda>ch. length ch = length l) x) pred label"
    by (simp_all add: well_shaped_def)
  then have "list_all2 (\<lambda>x l. x \<noteq> [] \<and> list_all (\<lambda>ch. length ch = length l) x)
       (select_valid ms pred) (select_valid ms label)"
    by (induction ms pred label rule: list_induct3) (auto simp: select_valid_def)
  then show ?thesis by (simp add: well_shaped_def list_all2_lengthD)
qed

lemma total_valid_nonneg: "0 \<le> total_valid label ii"
  unfolding total_valid_def by (rule sum_list_nonneg) (auto simp: valid_count_def)

lemma example_shapes:
  "well_shaped pred_example label_example"
  "validity_mask [1, 0] label_example"
  by (simp_all add: well_shaped_def validity_mask_def pred_example_def label_example_def)

lemma example_predicted:
  "map predicted pred_example = [[1, 0, 0], [1, 0, 0]]"
  by (simp add: pred_example_def predicted_def argmax_def upt_rec)

text \<open>
  Claim C4. For well-shaped tensors and a validity mask with one entry (0 or 1) per sample,
  the counts returned by \<open>get_correct_and_valid_pixels\<close> are the sums over the samples of
  the mask entry times the sample's own counts, so a sample whose entry is 0 contributes zero
  to both; they are the counts of correct and of valid pixels over the samples whose entry
  is 1 alone, restricted to the pixels whose label differs from \<open>ignore_index\<close>, which is
  also what the function returns for those samples without a mask. The sums inside
  \<open>pixel_acc\<close> are the same pair.
\<close>

theorem masked_counts:
  assumes "well_shaped pred label" and "validity_mask vmask label"
  shows "get_correct_and_valid_pixels pred label ignore_index (Some vmask) =
           Inr (sum_list (map2 (\<lambda>m (r, l). m * correct_count r l ignore_index) vmask
                            (zip (map predicted pred) label)),
                sum_list (map2 (\<lambda>m l. m * valid_count l ignore_index) vmask label)) \<and>
         get_correct_and_valid_pixels pred label ignore_index (Some vmask) =
           Inr (total_correct (select_valid vmask pred) (select_valid vmask label) ignore_index,
                total_valid (select_valid vmask label) ignore_index) \<and>
         get_correct_and_valid_pixels pred label ignore_index (Some vmask) =
           get_correct_and_valid_pixels (select_valid vmask pred) (select_valid vmask label)
             ignore_index None \<and>
         pixel_acc_sums pred label ignore_index (Some vmask) =
           get_correct_and_valid_pixels pred label ignore_index (Some vmask)"
proof -
  from assms(2) have len: "length vmask = length label" by (simp add: validity_mask_def)
  note sel = well_shaped_select[OF assms(1) len]
  show ?thesis
    unfolding sums_eq
    using sums_with_mask[OF assms(1) len, of ignore_index]
      sums_selected[OF assms, of ignore_index] sums_unmasked[OF sel, of ignore_index]
    by simp
qed

lemma example_sums:
  "sum_list (map2 (\<lambda>m (r, l). m * correct_count r l (- 1)) [1, 0]
     (zip (map predicted pred_example) label_example)) = 1"
  "sum_list (map2 (\<lambda>m l. m * valid_count l (- 1)) [1, 0] label_example) = 2"
  "sum_list (map2 (\<lambda>m (r, l). m * correct_count r l (- 1)) [0, 0]
     (zip (map predicted pred_example) label_example)) = 0"
  "sum_list (map2 (\<lambda>m l. m * valid_count l (- 1)) [0, 0] label_example) = 0"
  unfolding example_predicted
  by (simp_all add: label_example_def correct_count_def valid_count_def)

text \<open>The theorem at the example batch with the second sample masked out.\<close>

theorem masked_counts_witness:
  "well_shaped pred_example label_example \<and> validity_mask [1, 0] label_example \<and>
   get_correct_and_valid_pixels pred_example label_example (- 1) (Some [1, 0]) = Inr (1, 2) \<and>
   get_correct_and_valid_pixels [[[1, 5, 2], [3, 4, 2::int]]] [[1, 1, - 1]] (- 1) None = Inr (1, 2)"
proof -
  have sel: "select_valid [1, 0] pred_example = [[[1, 5, 2], [3, 4, 2]]]"
    "select_valid [1, 0] label_example = [[1, 1, - 1]]"
    by (simp_all add: select_valid_def pred_example_def label_example_def)
  note m = masked_counts[OF example_shapes, of "- 1", unfolded example_sums sel]
  from m have a: "get_correct_and_valid_pixels pred_example label_example (- 1) (Some [1, 0])
      = Inr (1, 2)" by (rule conjunct1)
  from m have "get_correct_and_valid_pixels pred_example label_example (- 1) (Some [1, 0])
      = get_correct_and_valid_pixels [[[1, 5, 2], [3, 4, 2::int]]] [[1, 1, - 1]] (- 1) None"
    by (elim conjE)
  with a have "get_correct_and_valid_pixels [[[1, 5, 2], [3, 4, 2::int]]] [[1, 1, - 1]] (- 1) None
      = Inr (1, 2)" by simp
  with a example_shapes show ?thesis by blast
qed

text \<open>
  Claim C8. For well-shaped tensors, with no mask or with a validity mask, the sum of valid
  pixels inside \<open>pixel_acc\<close> is the number of valid pixels of the selected samples and is
  never negative. When it is zero \<open>pixel_acc\<close> returns \<open>missing_score\<close> and no
  quotient is formed; otherwise it is strictly positive, the divisor
  \<open>pixel_sum + 1e-10\<close> is positive, and the result is \<open>acc_sum / (pixel_sum + 1e-10)\<close>.
\<close>

theorem pixel_acc_guard:
  assumes "well_shaped pred label"
    and "case samples_valid_mask of None \<Rightarrow> True | Some vmask \<Rightarrow> validity_mask vmask label"
  shows "\<exists>acc_sum pixel_sum.
           pixel_acc_sums pred label ignore_index samples_valid_mask = Inr (acc_sum, pixel_sum) \<and>
           pixel_sum = total_valid (case samples_valid_mask of None \<Rightarrow> label
                                    | Some vmask \<Rightarrow> select_valid vmask label) ignore_index \<and>
           0 \<le> pixel_sum \<and>
           (pixel_sum = 0 \<longrightarrow>
              pixel_acc pred label ignore_index samples_valid_mask missing_score
                = Inr (Missing missing_score)) \<and>
           (pixel_sum \<noteq> 0 \<longrightarrow>
              0 < pixel_sum \<and> 0 < real_of_int pixel_sum + 1 / 10 ^ 10 \<and>
              pixel_acc pred label ignore_index samples_valid_mask missing_score
                = Inr (Accuracy (real_of_int acc_sum / (real_of_int pixel_sum + 1 / 10 ^ 10))))"
proof (cases samples_valid_mask)
  case None
  let ?s = "total_valid label ignore_index"
  have nn: "0 \<le> ?s" by (rule total_valid_nonneg)
  then have "?s \<noteq> 0 \<longrightarrow> 0 < ?s \<and> 0 < real_of_int ?s + 1 / 10 ^ 10" by auto
  with nn sums_unmasked[OF assms(1), of ignore_index] None show ?thesis
    by (auto simp: pixel_acc_def)
next
  case (Some vmask)
  let ?s = "total_valid (select_valid vmask label) ignore_index"
  from assms(2) Some have vm: "validity_mask vmask label" by simp
  have nn: "0 \<le> ?s" by (rule total_valid_nonneg)
  then have "?s \<noteq> 0 \<longrightarrow> 0 < ?s \<and> 0 < real_of_int ?s + 1 / 10 ^ 10" by auto
  with nn sums_selected[OF assms(1) vm, of ignore_index] Some show ?thesis
    by (auto simp: pixel_acc_def)
qed

text \<open>The theorem at the example batch, and at a batch without any labelled pixel with the
  default arguments.\<close>

theorem pixel_acc_guard_witness:
  "(\<exists>acc_sum. pixel_acc pred_example label_example (- 1) (Some [1, 0]) (7::int)
       = Inr (Accuracy (real_of_int acc_sum / (2 + 1 / 10 ^ 10)))) \<and>
   pixel_acc_defaults pred_example [[- 1, - 1, - 1], [- 1, - 1, - 1]] = Inr (Missing 1)"
proof -
  have "total_valid (select_valid [1, 0] label_example) (- 1) = 2"
    by (simp add: select_valid_def label_example_def total_valid_def valid_count_def)
  with pixel_acc_guard[OF example_shapes(1), of "Some [1, 0]" "- 1" "7::int"] example_shapes(2)
  have "\<exists>acc_sum. pixel_acc pred_example label_example (- 1) (Some [1, 0]) (7::int)
       = Inr (Accuracy (real_of_int acc_sum / (2 + 1 / 10 ^ 10)))"
    by auto
  moreover
  have ws: "well_shaped pred_example [[- 1, - 1, - 1], [- 1, - 1, - 1]]"
    by (simp add: well_shaped_def pred_example_def)
  have "total_valid [[- 1, - 1, - 1], [- 1, - 1, - 1]] (- 1) = 0"
    by (simp add: total_valid_def valid_count_def)
  with pixel_acc_guard[OF ws, of None "- 1" "1::real"]
  have "pixel_acc_defaults pred_example [[- 1, - 1, - 1], [- 1, - 1, - 1]] = Inr (Missing 1)"
    by (auto simp: pixel_acc_defaults_def)
  ultimately show ?thesis by blast
qed

text \<open>
  Claim C10. On the same arguments the sums computed inside \<open>pixel_acc\<close> are the pair that
  \<open>get_correct_and_valid_pixels\<close> returns (both raise on the same inputs), so
  \<open>pixel_acc\<close> returns \<open>missing_score\<close> exactly when the valid count returned by
  \<open>get_correct_and_valid_pixels\<close> is zero, and a quotient exactly when it is not.
\<close>

theorem pixel_acc_refines:
  "pixel_acc_sums pred label ignore_index samples_valid_mask =
     get_correct_and_valid_pixels pred label ignore_index samples_valid_mask \<and>
   (pixel_acc pred label ignore_index samples_valid_mask missing_score = Inr (Missing missing_score)
      \<longleftrightarrow> (\<exists>acc_sum. get_correct_and_valid_pixels pred label ignore_index samples_valid_mask
             = Inr (acc_sum, 0))) \<and>
   ((\<exists>acc. pixel_acc pred label ignore_index samples_valid_mask missing_score = Inr (Accuracy acc))
      \<longleftrightarrow> (\<exists>acc_sum pixel_sum. pixel_sum \<noteq> 0 \<and>
             get_correct_and_valid_pixels pred label ignore_index samples_valid_mask
             = Inr (acc_sum, pixel_sum))) \<and>
   (\<forall>e. pixel_acc pred label ignore_index samples_valid_mask missing_score = Inl e
      \<longleftrightarrow> get_correct_and_valid_pixels pred label ignore_index samples_valid_mask = Inl e)"
  unfolding sums_eq pixel_acc_def
  by (auto split: sum.splits prod.splits)

text \<open>The theorem at the example batch, with one sample and with no sample selected.\<close>

theorem pixel_acc_refines_witness:
  "pixel_acc_sums pred_example label_example (- 1) (Some [1, 0]) = Inr (1, 2) \<and>
   get_correct_and_valid_pixels pred_example label_example (- 1) (Some [1, 0]) = Inr (1, 2) \<and>
   pixel_acc pred_example label_example (- 1) (Some [1, 0]) (1::real) \<noteq> Inr (Missing 1) \<and>
   get_correct_and_valid_pixels pred_example label_example (- 1) (Some [0, 0]) = Inr (0, 0) \<and>
   pixel_acc pred_example label_example (- 1) (Some [0, 0]) (1::real) = Inr (Missing 1)"
proof -
  have len: "length [1::int, 0] = length label_example" "length [0::int, 0] = length label_example"
    by (simp_all add: label_example_def)
  have a: "get_correct_and_valid_pixels pred_example label_example (- 1) (Some [1, 0]) = Inr (1, 2)"
    unfolding sums_eq sums_with_mask[OF example_shapes(1) len(1)] example_sums ..
  have b: "get_correct_and_valid_pixels pred_example label_example (- 1) (Some [0, 0]) = Inr (0, 0)"
    unfolding sums_eq sums_with_mask[OF example_shapes(1) len(2)] example_sums ..
  note r = pixel_acc_refines[of pred_example label_example "- 1" _ "1::real"]
  from r[of "Some [1, 0]"] a
  have "pixel_acc_sums pred_example label_example (- 1) (Some [1, 0]) = Inr (1, 2)"
    "pixel_acc pred_example label_example (- 1) (Some [1, 0]) (1::real) \<noteq> Inr (Missing 1)"
    by auto
  moreover from r[of "Some [0, 0]"] b
  have "pixel_acc pred_example label_example (- 1) (Some [0, 0]) (1::real) = Inr (Missing 1)"
    by auto
  ultimately show ?thesis using a b by blast
qed

section \<open>Properties of the masked cross entropy\<close>

lemma length_concat_rows: "length (concat t) = sum_list (map length t)"
  by (induction t) simp_all

lemma masked_rows_sum:
  "length ms = length t \<Longrightarrow>
     sum_list (concat (map2 (\<lambda>m row. map (\<lambda>x. real_of_int m * x) row) ms t))
       = sum_list (map2 (\<lambda>m row. real_of_int m * sum_list row) ms t)"
  by (induction ms t rule: list_induct2) (simp_all add: sum_list_const_mult)

lemma masked_rows_length:
  "length ms = length t \<Longrightarrow>
     length (concat (map2 (\<lambda>m row. map (\<lambda>x. real_of_int m * x) row) ms t)) = length (concat t)"
  by (induction ms t rule: list_induct2) simp_all

lemma select_rows_sum:
  "length ms = length t \<Longrightarrow> list_all (\<lambda>m. m = 0 \<or> m = 1) ms \<Longrightarrow>
     sum_list (map2 (\<lambda>m row. real_of_int m * sum_list row) ms t)
       = sum_list (concat (select_valid ms t))"
  by (induction ms t rule: list_induct2) (auto simp: select_valid_def)

text \<open>
  Claim C5. When the parent class returns one loss per target element and the mask has one
  entry per sample, \<open>forward\<close> returns the sum of the per-element losses, each multiplied
  by the mask entry of its sample, divided by the number of all target elements of all samples.
  With entries 0 and 1 the numerator is the sum of the losses of the samples whose entry is 1
  alone, while the denominator still counts the elements of every sample.
\<close>

theorem masked_mean:
  assumes "cross_entropy input target = Inr loss"
    and "map length loss = map length target"
    and "length validation_mask = length target"
    and "concat target \<noteq> []"
  shows "CrossEntropyLossWithValidationMask_forward cross_entropy input target validation_mask =
           Inr (Finite (sum_list (map2 (\<lambda>m row. real_of_int m * sum_list row) validation_mask loss)
                        / real (length (concat target)))) \<and>
         (list_all (\<lambda>m. m = 0 \<or> m = 1) validation_mask \<longrightarrow>
            CrossEntropyLossWithValidationMask_forward cross_entropy input target validation_mask =
              Inr (Finite (sum_list (concat (select_valid validation_mask loss))
                           / real (length (concat target)))))"
proof -
  from assms(2) have ll: "length loss = length target" by (rule map_eq_imp_length_eq)
  with assms(3) have len: "length validation_mask = length loss" by simp
  let ?masked = "map2 (\<lambda>m row. map (\<lambda>x. real_of_int m * x) row) validation_mask loss"
  have m: "mul_mask validation_mask loss = Inr ?masked" using len by (simp add: mul_mask_def)
  have n: "length (concat ?masked) = length (concat target)"
    using masked_rows_length[OF len] assms(2) by (simp add: length_concat_rows)
  with assms(4) have ne: "concat ?masked \<noteq> []" by (metis length_0_conv)
  have "torch_mean ?masked = Finite (sum_list (concat ?masked) / real (length (concat ?masked)))"
    using ne by (simp add: torch_mean_def Let_def)
  then have mean: "torch_mean ?masked =
      Finite (sum_list (map2 (\<lambda>m row. real_of_int m * sum_list row) validation_mask loss)
              / real (length (concat target)))"
    unfolding n masked_rows_sum[OF len] .
  have first: "CrossEntropyLossWithValidationMask_forward cross_entropy input target validation_mask =
           Inr (Finite (sum_list (map2 (\<lambda>m row. real_of_int m * sum_list row) validation_mask loss)
                        / real (length (concat target))))"
    by (simp add: CrossEntropyLossWithValidationMask_forward_def assms(1) m mean)
  show ?thesis
  proof (intro conjI impI)
    show "CrossEntropyLossWithValidationMask_forward cross_entropy input target validation_mask =
           Inr (Finite (sum_list (map2 (\<lambda>m row. real_of_int m * sum_list row) validation_mask loss)
                        / real (length (concat target))))" by (rule first)
  next
    assume "list_all (\<lambda>m. m = 0 \<or> m = 1) validation_mask"
    from select_rows_sum[OF len this] first
    show "CrossEntropyLossWithValidationMask_forward cross_entropy input target validation_mask =
              Inr (Finite (sum_list (concat (select_valid validation_mask loss))
                           / real (length (concat target))))" by simp
  qed
qed

text \<open>The theorem at the example: masking the second sample out leaves (1 + 2) / 4.\<close>

theorem masked_mean_witness:
  "CrossEntropyLossWithValidationMask_forward ce_example () [[3, 0], [5, 5]] [1, 0] = Inr (Finite (3 / 4)) \<and>
   CrossEntropyLossWithValidationMask_forward ce_example () [[3, 0], [5, 5]] [1, 1] = Inr (Finite (15 / 4))"
proof -
  have c: "ce_example () [[3, 0], [5, 5]] = Inr [[1, 2], [4, 8]]" by (simp add: ce_example_def)
  have "CrossEntropyLossWithValidationMask_forward ce_example () [[3, 0], [5, 5]] [1, 0]
      = Inr (Finite (3 / 4))"
    using masked_mean[of ce_example "()" "[[3, 0], [5, 5]]" "[[1, 2], [4, 8]]" "[1, 0]"] c
    by (simp add: select_valid_def)
  moreover have "CrossEntropyLossWithValidationMask_forward ce_example () [[3, 0], [5, 5]] [1, 1]
      = Inr (Finite (15 / 4))"
    using masked_mean[of ce_example "()" "[[3, 0], [5, 5]]" "[[1, 2], [4, 8]]" "[1, 1]"] c
    by (simp add: select_valid_def)
  ultimately show ?thesis by blast
qed

section \<open>Properties of the training losses\<close>











section \<open>Properties of load_parts_segmentation\<close>

lemma masked_assign_ok:
  assumes "map length m = map length arr"
  shows "\<exists>arr'. masked_assign arr m v = Inr arr' \<and> map length arr' = map length arr \<and>
           (\<forall>y<length arr. \<forall>x<length (arr ! y).
              arr' ! y ! x = (if m ! y ! x \<noteq> 0 then word_of_int v else arr ! y ! x))"
proof -
  let ?f = "\<lambda>b a. if b \<noteq> 0 then (word_of_int v :: 16 word) else a"
  let ?arr' = "map2 (map2 ?f) m arr"
  from assms have len: "length m = length arr" by (rule map_eq_imp_length_eq)
  have rows: "length (m ! y) = length (arr ! y)" if "y < length arr" for y
    using assms that len by (metis nth_map)
  have "map length ?arr' = map length arr"
    using assms
  proof (induction m arbitrary: arr)
    case Nil
    then show ?case by simp
  next
    case (Cons r m)
    then show ?case by (cases arr) simp_all
  qed
  moreover have "?arr' ! y ! x = (if m ! y ! x \<noteq> 0 then word_of_int v else arr ! y ! x)"
    if "y < length arr" "x < length (arr ! y)" for y x
    using that len rows[OF that(1)] by simp
  ultimately show ?thesis using assms by (simp add: masked_assign_def)
qed

lemma part_loop_ok:
  assumes "list_all (\<lambda>p. map length (part_mask p) = map length ps \<and>
                          part_key (oi, part_name p) \<noteq> None) ps_anno"
  shows "\<exists>ps'. for_loop (part_body part_key oi) ps ps_anno = Inr ps' \<and>
           map length ps' = map length ps \<and>
           (\<forall>y<length ps. \<forall>x<length (ps ! y).
              ps' ! y ! x =
                pix_after (map (\<lambda>p. (part_mask p, int (the (part_key (oi, part_name p))))) ps_anno)
                  y x (ps ! y ! x))"
  using assms
proof (induction ps_anno arbitrary: ps)
  case Nil
  then show ?case by simp
next
  case (Cons p rest)
  from Cons.prems obtain code where code: "part_key (oi, part_name p) = Some code"
    and shp: "map length (part_mask p) = map length ps" by auto
  from masked_assign_ok[OF shp, of "int code"] obtain ps1 where
    ps1: "masked_assign ps (part_mask p) (int code) = Inr ps1" "map length ps1 = map length ps"
      "\<forall>y<length ps. \<forall>x<length (ps ! y).
          ps1 ! y ! x = (if part_mask p ! y ! x \<noteq> 0 then word_of_int (int code) else ps ! y ! x)"
    by blast
  have step: "part_body part_key oi ps p = Inr ps1" by (simp add: part_body_def code ps1(1))
  from Cons.prems ps1(2)
  have "list_all (\<lambda>p. map length (part_mask p) = map length ps1 \<and>
                          part_key (oi, part_name p) \<noteq> None) rest" by simp
  from Cons.IH[OF this] obtain ps' where
    ps': "for_loop (part_body part_key oi) ps1 rest = Inr ps'" "map length ps' = map length ps1"
      "\<forall>y<length ps1. \<forall>x<length (ps1 ! y).
          ps' ! y ! x =
            pix_after (map (\<lambda>p. (part_mask p, int (the (part_key (oi, part_name p))))) rest)
              y x (ps1 ! y ! x)" by blast
  from ps1(2) have l1: "length ps1 = length ps" by (rule map_eq_imp_length_eq)
  have r1: "length (ps1 ! y) = length (ps ! y)" if "y < length ps" for y
    using ps1(2) that l1 by (metis nth_map)
  have "ps' ! y ! x =
      pix_after (map (\<lambda>p. (part_mask p, int (the (part_key (oi, part_name p))))) (p # rest))
        y x (ps ! y ! x)" if "y < length ps" "x < length (ps ! y)" for y x
    using ps'(3) ps1(3) that l1 r1[OF that(1)] code by simp
  with step ps'(1,2) ps1(2) show ?case by simp
qed

lemma pix_after_append:
  "pix_after (xs @ ys) y x w = pix_after ys y x (pix_after xs y x w)"
  by (induction xs arbitrary: w) auto

lemma pix_after_last_cover:
  "pix_after ls y x w = (case last_cover ls y x of None \<Rightarrow> w | Some v \<Rightarrow> word_of_int v)"
  by (induction ls arbitrary: w) (auto simp: covers_def split: option.splits)

lemma last_cover_mem: "last_cover ls y x = Some v \<Longrightarrow> v \<in> snd ` set ls"
  by (induction ls) (auto split: option.splits if_splits)

lemma sint_last_cover:
  assumes "\<forall>v\<in>snd ` set ls. - (2 ^ 15) \<le> v \<and> v < 2 ^ 15"
  shows "sint (pix_after ls y x 0) = (case last_cover ls y x of None \<Rightarrow> 0 | Some c \<Rightarrow> c)"
proof (cases "last_cover ls y x")
  case None
  then show ?thesis by (simp add: pix_after_last_cover)
next
  case (Some v)
  with assms last_cover_mem[OF Some] have "- (2 ^ 15) \<le> v" "v < 2 ^ 15" by auto
  then have "sint (word_of_int v :: 16 word) = v"
    by (simp add: sint_sbintrunc' signed_take_bit_int_eq_self)
  with Some show ?thesis by (simp add: pix_after_last_cover)
qed

lemma object_loop_ok:
  assumes "list_all (\<lambda>obj. map length (obj_mask obj) = map length os \<and>
               list_all (\<lambda>p. map length (part_mask p) = map length os \<and>
                               part_key (class_ind obj, part_name p) \<noteq> None) (parts obj)) objects"
    and "map length ps = map length os"
  shows "\<exists>os' ps'. for_loop (object_body part_key) (os, ps) objects = Inr (os', ps') \<and>
           map length os' = map length os \<and> map length ps' = map length os \<and>
           (\<forall>y<length os. \<forall>x<length (os ! y).
              os' ! y ! x = pix_after (object_layers objects) y x (os ! y ! x) \<and>
              ps' ! y ! x = pix_after (part_layers part_key objects) y x (ps ! y ! x))"
  using assms
proof (induction objects arbitrary: os ps)
  case Nil
  then show ?case by (simp add: object_layers_def part_layers_def)
next
  case (Cons obj rest)
  let ?pl = "map (\<lambda>p. (part_mask p, int (the (part_key (class_ind obj, part_name p))))) (parts obj)"
  from Cons.prems have shp: "map length (obj_mask obj) = map length os"
    and pts: "list_all (\<lambda>p. map length (part_mask p) = map length ps \<and>
                part_key (class_ind obj, part_name p) \<noteq> None) (parts obj)"
    by simp_all
  from masked_assign_ok[OF shp, of "class_ind obj"] obtain os1 where
    os1: "masked_assign os (obj_mask obj) (class_ind obj) = Inr os1"
      "map length os1 = map length os"
      "\<forall>y<length os. \<forall>x<length (os ! y).
          os1 ! y ! x = (if obj_mask obj ! y ! x \<noteq> 0 then word_of_int (class_ind obj)
                         else os ! y ! x)" by blast
  from part_loop_ok[OF pts] obtain ps1 where
    ps1: "for_loop (part_body part_key (class_ind obj)) ps (parts obj) = Inr ps1"
      "map length ps1 = map length ps"
      "\<forall>y<length ps. \<forall>x<length (ps ! y). ps1 ! y ! x = pix_after ?pl y x (ps ! y ! x)"
    by blast
  have step: "object_body part_key (os, ps) obj = Inr (os1, ps1)"
    by (simp add: object_body_def os1(1) ps1(1))
  from Cons.prems os1(2)
  have a1: "list_all (\<lambda>obj. map length (obj_mask obj) = map length os1 \<and>
               list_all (\<lambda>p. map length (part_mask p) = map length os1 \<and>
                               part_key (class_ind obj, part_name p) \<noteq> None) (parts obj)) rest"
    by simp
  from ps1(2) Cons.prems(2) os1(2) have a2: "map length ps1 = map length os1" by simp
  from Cons.IH[OF a1 a2] obtain os' ps' where
    r: "for_loop (object_body part_key) (os1, ps1) rest = Inr (os', ps')"
      "map length os' = map length os1" "map length ps' = map length os1"
      "\<forall>y<length os1. \<forall>x<length (os1 ! y).
          os' ! y ! x = pix_after (object_layers rest) y x (os1 ! y ! x) \<and>
          ps' ! y ! x = pix_after (part_layers part_key rest) y x (ps1 ! y ! x)" by blast
  from os1(2) have l1: "length os1 = length os" by (rule map_eq_imp_length_eq)
  from Cons.prems(2) have lp: "length ps = length os" by (rule map_eq_imp_length_eq)
  have r1: "length (os1 ! y) = length (os ! y)" if "y < length os" for y
    using os1(2) that l1 by (metis nth_map)
  have rp: "length (ps ! y) = length (os ! y)" if "y < length os" for y
    using Cons.prems(2) that lp by (metis nth_map)
  have "os' ! y ! x = pix_after (object_layers (obj # rest)) y x (os ! y ! x) \<and>
        ps' ! y ! x = pix_after (part_layers part_key (obj # rest)) y x (ps ! y ! x)"
    if "y < length os" "x < length (os ! y)" for y x
    using r(4) os1(3) ps1(3) that l1 lp r1[OF that(1)] rp[OF that(1)]
    by (simp add: object_layers_def part_layers_def pix_after_append)
  with step r(1,2,3) os1(2) show ?case by simp
qed

lemma anno_ok_shapes:
  assumes "anno_ok part_key objects"
  shows "list_all (\<lambda>obj. map length (obj_mask obj) = map length (zeros_like (obj_mask (hd objects))) \<and>
               list_all (\<lambda>p. map length (part_mask p) = map length (zeros_like (obj_mask (hd objects))) \<and>
                               part_key (class_ind obj, part_name p) \<noteq> None) (parts obj)) objects"
  using assms unfolding anno_ok_def list_all_iff
  by (auto simp: zeros_like_def comp_def split: option.splits)

lemma anno_ok_range:
  assumes "anno_ok part_key objects"
  shows "\<forall>v\<in>snd ` set (object_layers objects). - (2 ^ 15) \<le> v \<and> v < 2 ^ 15"
    and "\<forall>v\<in>snd ` set (part_layers part_key objects). - (2 ^ 15) \<le> v \<and> v < 2 ^ 15"
proof -
  show "\<forall>v\<in>snd ` set (object_layers objects). - (2 ^ 15) \<le> v \<and> v < 2 ^ 15"
    using assms unfolding anno_ok_def list_all_iff object_layers_def by auto
  show "\<forall>v\<in>snd ` set (part_layers part_key objects). - (2 ^ 15) \<le> v \<and> v < 2 ^ 15"
  proof
    fix v assume "v \<in> snd ` set (part_layers part_key objects)"
    then obtain obj p where op: "obj \<in> set objects" "p \<in> set (parts obj)"
      "v = int (the (part_key (class_ind obj, part_name p)))"
      unfolding part_layers_def by auto
    with assms obtain code where "part_key (class_ind obj, part_name p) = Some code"
      "code < 2 ^ 15"
      unfolding anno_ok_def list_all_iff by (auto split: option.splits)
    with op(3) show "- (2 ^ 15) \<le> v \<and> v < 2 ^ 15" by simp
  qed
qed

text \<open>
  Claim C9, as the code has it. For a file that \<^verbatim>\<open>loadmat\<close> reads and that holds an
  annotation: \<open>load_parts_segmentation\<close> returns the scalar pair (0, 0) if and only if the
  annotation holds no instance. When it holds at least one and is well formed for the part
  key (every mask has the shape of the first instance's mask, every pair of class index and
  part name is a key of \<open>part_key\<close>, the values fit in 16 bits), it returns two arrays of
  16-bit integers of the first mask's shape: the object value of a pixel is the class index of
  the last instance, in file order, whose mask covers it, its part value is the part code,
  looked up in \<open>part_key\<close> by the owning instance's class index and the part's name, of the
  last part mask covering it, and a pixel that no mask covers is 0.
\<close>

theorem load_parts_segmentation_result:
  assumes "loadmat filename = Inr d" and "anno d = Some objects"
  shows "(load_parts_segmentation loadmat filename part_key = Inr (Scalar 0, Scalar 0)
            \<longleftrightarrow> objects = []) \<and>
         (objects \<noteq> [] \<and> anno_ok part_key objects \<longrightarrow>
            (\<exists>object_seg part_seg.
               load_parts_segmentation loadmat filename part_key
                 = Inr (Int16Array object_seg, Int16Array part_seg) \<and>
               map length object_seg = map length (obj_mask (hd objects)) \<and>
               map length part_seg = map length (obj_mask (hd objects)) \<and>
               (\<forall>y<length (obj_mask (hd objects)). \<forall>x<length (obj_mask (hd objects) ! y).
                  sint (object_seg ! y ! x)
                    = (case last_cover (object_layers objects) y x of None \<Rightarrow> 0 | Some c \<Rightarrow> c) \<and>
                  sint (part_seg ! y ! x)
                    = (case last_cover (part_layers part_key objects) y x of
                         None \<Rightarrow> 0 | Some c \<Rightarrow> c))))"
proof (intro conjI impI)
  show "load_parts_segmentation loadmat filename part_key = Inr (Scalar 0, Scalar 0)
            \<longleftrightarrow> objects = []"
    using assms by (auto simp: load_parts_segmentation_def Let_def split: sum.splits prod.splits)
next
  assume a: "objects \<noteq> [] \<and> anno_ok part_key objects"
  let ?m0 = "obj_mask (hd objects)"
  let ?z = "zeros_like ?m0"
  from a have ok: "anno_ok part_key objects" and ne: "objects \<noteq> []" by simp_all
  have zl: "map length ?z = map length ?m0" by (simp add: zeros_like_def comp_def)
  then have lz: "length ?z = length ?m0" by (rule map_eq_imp_length_eq)
  have rz: "length (?z ! y) = length (?m0 ! y)" if "y < length ?m0" for y
    using that by (simp add: zeros_like_def)
  have z0: "?z ! y ! x = 0" if "y < length ?m0" "x < length (?m0 ! y)" for y x
    using that by (simp add: zeros_like_def)
  from object_loop_ok[OF anno_ok_shapes[OF ok] refl] obtain os' ps' where
    r: "for_loop (object_body part_key) (?z, ?z) objects = Inr (os', ps')"
      "map length os' = map length ?z" "map length ps' = map length ?z"
      "\<forall>y<length ?z. \<forall>x<length (?z ! y).
          os' ! y ! x = pix_after (object_layers objects) y x (?z ! y ! x) \<and>
          ps' ! y ! x = pix_after (part_layers part_key objects) y x (?z ! y ! x)" by blast
  have res: "load_parts_segmentation loadmat filename part_key
      = Inr (Int16Array os', Int16Array ps')"
    using assms ne r(1) by (simp add: load_parts_segmentation_def Let_def)
  have pix: "sint (os' ! y ! x)
        = (case last_cover (object_layers objects) y x of None \<Rightarrow> 0 | Some c \<Rightarrow> c) \<and>
      sint (ps' ! y ! x)
        = (case last_cover (part_layers part_key objects) y x of None \<Rightarrow> 0 | Some c \<Rightarrow> c)"
    if "y < length ?m0" "x < length (?m0 ! y)" for y x
  proof -
    from that r(4) lz rz[OF that(1)] z0[OF that]
    have "os' ! y ! x = pix_after (object_layers objects) y x 0"
      "ps' ! y ! x = pix_after (part_layers part_key objects) y x 0" by simp_all
    with sint_last_cover[OF anno_ok_range(1)[OF ok]] sint_last_cover[OF anno_ok_range(2)[OF ok]]
    show ?thesis by simp
  qed
  from res r(2,3) zl pix
  show "\<exists>object_seg part_seg.
               load_parts_segmentation loadmat filename part_key
                 = Inr (Int16Array object_seg, Int16Array part_seg) \<and>
               map length object_seg = map length (obj_mask (hd objects)) \<and>
               map length part_seg = map length (obj_mask (hd objects)) \<and>
               (\<forall>y<length (obj_mask (hd objects)). \<forall>x<length (obj_mask (hd objects) ! y).
                  sint (object_seg ! y ! x)
                    = (case last_cover (object_layers objects) y x of None \<Rightarrow> 0 | Some c \<Rightarrow> c) \<and>
                  sint (part_seg ! y ! x)
                    = (case last_cover (part_layers part_key objects) y x of
                         None \<Rightarrow> 0 | Some c \<Rightarrow> c))"
    by auto
qed

lemma loadmat_example_files:
  "loadmat_example ''/data/part/Annotations_Part/2008_000003.mat''
     = Inr \<lparr>anno = Some anno_example, LabelMap = None\<rparr>"
  "loadmat_example ''/data/part/Annotations_Part/empty.mat''
     = Inr \<lparr>anno = Some [], LabelMap = None\<rparr>"
  "loadmat_example ''/data/context/trainval/2008_000003.mat''
     = Inr \<lparr>anno = None, LabelMap = Some [[7, 7, 9]]\<rparr>"
  by (simp_all add: loadmat_example_def)

text \<open>The theorem at the example files: an empty annotation, and two instances of which the
  second overwrites the middle pixel.\<close>

theorem load_parts_segmentation_result_witness:
  "load_parts_segmentation loadmat_example ''/data/part/Annotations_Part/empty.mat''
     part_key_example = Inr (Scalar 0, Scalar 0) \<and>
   (\<exists>object_seg part_seg.
      load_parts_segmentation loadmat_example ''/data/part/Annotations_Part/2008_000003.mat''
        part_key_example = Inr (Int16Array object_seg, Int16Array part_seg) \<and>
      map length object_seg = [3] \<and> map length part_seg = [3] \<and>
      sint (object_seg ! 0 ! 0) = 2 \<and> sint (object_seg ! 0 ! 1) = 5 \<and>
      sint (object_seg ! 0 ! 2) = 0 \<and>
      sint (part_seg ! 0 ! 0) = 2 \<and> sint (part_seg ! 0 ! 1) = 1 \<and> sint (part_seg ! 0 ! 2) = 0)"
proof -
  have e: "load_parts_segmentation loadmat_example ''/data/part/Annotations_Part/empty.mat''
     part_key_example = Inr (Scalar 0, Scalar 0)"
    using load_parts_segmentation_result[of loadmat_example
        "''/data/part/Annotations_Part/empty.mat''" "\<lparr>anno = Some [], LabelMap = None\<rparr>" "[]"
        part_key_example] loadmat_example_files(2)
    by simp
  have ok: "anno_ok part_key_example anno_example"
    by (simp add: anno_ok_def anno_example_def part_key_example_def)
  have ne: "anno_example \<noteq> []" by (simp add: anno_example_def)
  have hd: "obj_mask (hd anno_example) = [[1, 1, 0]]" by (simp add: anno_example_def)
  have ol: "object_layers anno_example = [([[1, 1, 0]], 2), ([[0, 1, 0]], 5)]"
    by (simp add: object_layers_def anno_example_def)
  have pl: "part_layers part_key_example anno_example
      = [([[1, 0, 0]], 1), ([[1, 1, 0]], 2), ([[0, 1, 0]], 1)]"
    by (simp add: part_layers_def anno_example_def part_key_example_def)
  from load_parts_segmentation_result[of loadmat_example
      "''/data/part/Annotations_Part/2008_000003.mat''"
      "\<lparr>anno = Some anno_example, LabelMap = None\<rparr>" anno_example part_key_example]
    loadmat_example_files(1) ok ne
  obtain object_seg part_seg where
    r: "load_parts_segmentation loadmat_example ''/data/part/Annotations_Part/2008_000003.mat''
        part_key_example = Inr (Int16Array object_seg, Int16Array part_seg)"
    and shp: "map length object_seg = map length (obj_mask (hd anno_example))"
      "map length part_seg = map length (obj_mask (hd anno_example))"
    and pix: "\<forall>y<length (obj_mask (hd anno_example)).
       \<forall>x<length (obj_mask (hd anno_example) ! y).
          sint (object_seg ! y ! x)
            = (case last_cover (object_layers anno_example) y x of None \<Rightarrow> 0 | Some c \<Rightarrow> c) \<and>
          sint (part_seg ! y ! x)
            = (case last_cover (part_layers part_key_example anno_example) y x of
                 None \<Rightarrow> 0 | Some c \<Rightarrow> c)"
    by auto
  from pix[unfolded hd ol pl, rule_format, of 0 0] pix[unfolded hd ol pl, rule_format, of 0 1]
    pix[unfolded hd ol pl, rule_format, of 0 2]
  have "sint (object_seg ! 0 ! 0) = 2" "sint (object_seg ! 0 ! 1) = 5"
    "sint (object_seg ! 0 ! 2) = 0" "sint (part_seg ! 0 ! 0) = 2" "sint (part_seg ! 0 ! 1) = 1"
    "sint (part_seg ! 0 ! 2) = 0"
    by (simp_all add: covers_def)
  with r shp[unfolded hd] e show ?thesis by simp
qed

text \<open>
  Claim C9 as stated promises two arrays for every annotation with an instance. With the
  part \<open>tail\<close> of class 2 missing from the part key, the lookup
  \<^verbatim>\<open>part_key[(object_ind, part_name)]\<close> raises KeyError and nothing is returned.
\<close>

theorem load_parts_segmentation_keyerror_counterexample:
  "anno_example \<noteq> [] \<and>
   load_parts_segmentation loadmat_example ''/data/part/Annotations_Part/2008_000003.mat''
     [(2, ''head'') \<mapsto> 1, (5, ''head'') \<mapsto> 1] = Inl KeyError"
  by (simp add: load_parts_segmentation_def loadmat_example_files anno_example_def
      zeros_like_def object_body_def part_body_def masked_assign_def)

section \<open>Properties of metadata and resolve_segmentation\<close>

lemma example_paths:
  "os_path_join ''/data'' [''part'', ''Annotations_Part'', ''2008_000003.mat'']
     = ''/data/part/Annotations_Part/2008_000003.mat''"
  "os_path_join ''/data'' [''context'', ''trainval'', ''2008_000003.mat'']
     = ''/data/context/trainval/2008_000003.mat''"
  by (simp_all add: os_path_join_def join_step_def)

lemma example_parts_segmentation:
  "load_parts_segmentation loadmat_example ''/data/part/Annotations_Part/2008_000003.mat''
     part_key_example = Inr (Int16Array [[2, 5, 0]], Int16Array [[2, 1, 0]])"
  by (simp add: load_parts_segmentation_def loadmat_example_files anno_example_def
      part_key_example_def zeros_like_def object_body_def part_body_def masked_assign_def)

text \<open>A loop leaves the store as it is when its body does.\<close>

lemma for_loop_ref_store:
  assumes "\<And>s x h. x \<in> set xs \<Longrightarrow> snd (body s x h) = h"
  shows "snd (for_loop_ref body s xs h) = h"
  using assms
proof (induction xs arbitrary: s)
  case Nil
  then show ?case by simp
next
  case (Cons x xs)
  obtain r h' where b: "body s x h = (r, h')" by (cases "body s x h")
  from Cons.prems[of x s h] b have h': "h' = h" by simp
  show ?case
  proof (cases r)
    case (Inl e)
    with b h' show ?thesis by simp
  next
    case (Inr s')
    have "snd (for_loop_ref body s' xs h) = h"
      by (rule Cons.IH) (simp add: Cons.prems)
    with b h' Inr show ?thesis by simp
  qed
qed

text \<open>With a body that leaves the store as it is and returns what a body on values
  returns, the loop returns what the loop on values returns.\<close>

lemma for_loop_ref_value:
  assumes "\<And>s x. x \<in> set xs \<Longrightarrow> body_ref s x h = (body s x, h)"
  shows "for_loop_ref body_ref s xs h = (for_loop body s xs, h)"
  using assms
proof (induction xs arbitrary: s)
  case Nil
  then show ?case by simp
next
  case (Cons x xs)
  have b: "body_ref s x h = (body s x, h)" by (rule Cons.prems) simp
  show ?case
  proof (cases "body s x")
    case (Inl e)
    with b show ?thesis by simp
  next
    case (Inr s')
    have "for_loop_ref body_ref s' xs h = (for_loop body s' xs, h)"
      by (rule Cons.IH) (simp add: Cons.prems)
    with b Inr show ?thesis by simp
  qed
qed

lemma part_body_ref_value:
  "part_body_ref part_key object_ind part_seg part h
     = (part_body (h part_key) object_ind part_seg part, h)"
  by (simp add: part_body_ref_def part_body_def ref_getitem_def split: option.splits)

lemma object_body_ref_value:
  "object_body_ref part_key segs obj h = (object_body (h part_key) segs obj, h)"
proof -
  obtain object_seg part_seg where segs: "segs = (object_seg, part_seg)" by (cases segs)
  have loop: "for_loop_ref (part_body_ref part_key (class_ind obj)) part_seg (parts obj) h
      = (for_loop (part_body (h part_key) (class_ind obj)) part_seg (parts obj), h)"
    by (rule for_loop_ref_value) (rule part_body_ref_value)
  show ?thesis
    using loop by (simp add: object_body_ref_def object_body_def segs split: sum.splits)
qed

text \<open>
  \<^verbatim>\<open>load_parts_segmentation\<close> leaves every dictionary as it is, whether it returns or
  raises, and what it returns or raises is what the function on values does with the
  content of the dictionary.
\<close>

lemma load_parts_segmentation_ref_value:
  "load_parts_segmentation_ref loadmat filename part_key h
     = (load_parts_segmentation loadmat filename (h part_key), h)"
proof -
  have loop: "for_loop_ref (object_body_ref part_key) s objects h
      = (for_loop (object_body (h part_key)) s objects, h)" for s objects
    by (rule for_loop_ref_value) (rule object_body_ref_value)
  show ?thesis
    using loop
    by (simp add: load_parts_segmentation_ref_def load_parts_segmentation_def Let_def
        split: sum.splits option.splits)
qed

lemma resolve_segmentation_store:
  "snd (resolve_segmentation loadmat m categories h) = h"
proof -
  obtain directory partdir contextdir part_key seg_fn
    where m: "m = (directory, partdir, contextdir, part_key, seg_fn)" by (cases m)
  show ?thesis
    unfolding resolve_segmentation_def m load_parts_segmentation_ref_value
    by (simp add: Let_def split: sum.splits option.splits prod.splits)
qed

text \<open>
  Claim C7. For every instance and all indices \<open>i\<close> and \<open>j\<close> at which
  \<open>metadata\<close> returns, the first four components of the two tuples are the same: the
  instance's directory, part directory, context directory and the reference to its part
  key; only the file name varies, and at an index within the list of files it is that
  file's name. A call of \<open>resolve_segmentation\<close>, with any tuple and any categories,
  leaves every dictionary of the store as it was, whether it returns or raises: the part
  key that a tuple of \<open>metadata\<close> refers to has after the call the content that it had
  before. The call reads the part key: what it returns depends on the store through the
  content of the tuple's part key only.
\<close>

theorem metadata_static:
  "(metadata self i = Inr (d1, p1, c1, k1, f1) \<and> metadata self j = Inr (d2, p2, c2, k2, f2)
      \<longrightarrow> (d1, p1, c1, k1) = (d2, p2, c2, k2) \<and>
          (d1, p1, c1, k1) = (self_directory self, self_partdir self, self_contextdir self,
                              self_part_key self) \<and>
          snd (resolve_segmentation loadmat m categories h) k2 = h k1) \<and>
   (self_segs self = Some segs \<and> 0 \<le> i \<and> i < int (length segs)
      \<longrightarrow> metadata self i = Inr (self_directory self, self_partdir self, self_contextdir self,
                                 self_part_key self, segs ! nat i)) \<and>
   snd (resolve_segmentation loadmat m categories h) = h \<and>
   (h (fst (snd (snd (snd m)))) = h' (fst (snd (snd (snd m))))
      \<longrightarrow> fst (resolve_segmentation loadmat m categories h)
            = fst (resolve_segmentation loadmat m categories h'))"
proof (intro conjI impI)
  assume a: "metadata self i = Inr (d1, p1, c1, k1, f1) \<and> metadata self j = Inr (d2, p2, c2, k2, f2)"
  then show eq: "(d1, p1, c1, k1) = (d2, p2, c2, k2)"
    by (auto simp: metadata_def split: option.splits sum.splits)
  from a show "(d1, p1, c1, k1) = (self_directory self, self_partdir self, self_contextdir self,
                              self_part_key self)"
    by (auto simp: metadata_def split: option.splits sum.splits)
  from eq show "snd (resolve_segmentation loadmat m categories h) k2 = h k1"
    by (simp add: resolve_segmentation_store)
next
  assume "self_segs self = Some segs \<and> 0 \<le> i \<and> i < int (length segs)"
  then show "metadata self i = Inr (self_directory self, self_partdir self, self_contextdir self,
                                 self_part_key self, segs ! nat i)"
    by (simp add: metadata_def py_getitem_def)
next
  show "snd (resolve_segmentation loadmat m categories h) = h"
    by (rule resolve_segmentation_store)
next
  obtain directory partdir contextdir part_key seg_fn
    where m: "m = (directory, partdir, contextdir, part_key, seg_fn)" by (cases m)
  assume "h (fst (snd (snd (snd m)))) = h' (fst (snd (snd (snd m))))"
  then have "h part_key = h' part_key" by (simp add: m)
  then show "fst (resolve_segmentation loadmat m categories h)
      = fst (resolve_segmentation loadmat m categories h')"
    unfolding resolve_segmentation_def m load_parts_segmentation_ref_value
    by (simp add: Let_def split: sum.splits option.splits prod.splits)
qed

text \<open>The theorem at the example instance with its two annotation files, and at the store
  that holds its part key.\<close>

theorem metadata_static_witness:
  "metadata pascal_example 0 = Inr (''/data'', ''part'', ''context'', 4, ''2008_000003.mat'') \<and>
   metadata pascal_example 1 = Inr (''/data'', ''part'', ''context'', 4, ''empty.mat'') \<and>
   resolve_segmentation loadmat_example
       (''/data'', ''part'', ''context'', 4, ''2008_000003.mat'') None store_example
     = (Inr ([(''part'', Int16Array [[2, 1, 0]]), (''object'', MatArray [[7, 7, 9]])], (1, 3)),
        store_example) \<and>
   snd (resolve_segmentation loadmat_example
          (''/data'', ''part'', ''context'', 4, ''missing.mat'') None store_example) 4
     = part_key_example \<and>
   (''/data'', ''part'', ''context'', 4)
     = (self_directory pascal_example, self_partdir pascal_example,
        self_contextdir pascal_example, self_part_key pascal_example)"
proof -
  have segs: "self_segs pascal_example = Some [''2008_000003.mat'', ''empty.mat'']"
    by (simp add: pascal_example_def)
  note m = metadata_static[where self = pascal_example
      and segs = "[''2008_000003.mat'', ''empty.mat'']", THEN conjunct2, THEN conjunct1, rule_format]
  have m0: "metadata pascal_example 0
     = Inr (''/data'', ''part'', ''context'', 4, ''2008_000003.mat'')"
    using m[where i = 0] segs by (simp add: pascal_example_def)
  have m1: "metadata pascal_example 1
     = Inr (''/data'', ''part'', ''context'', 4, ''empty.mat'')"
    using m[where i = 1] segs by (simp add: pascal_example_def)
  let ?m = "(''/data'', ''part'', ''context'', 4, ''2008_000003.mat'') :: seg_metadata"
  let ?m' = "(''/data'', ''part'', ''context'', 4, ''missing.mat'') :: seg_metadata"
  have s4: "store_example 4 = part_key_example" by (simp add: store_example_def)
  have v: "fst (resolve_segmentation loadmat_example ?m None store_example)
      = Inr ([(''part'', Int16Array [[2, 1, 0]]), (''object'', MatArray [[7, 7, 9]])], (1, 3))"
    by (simp add: resolve_segmentation_def load_parts_segmentation_ref_value s4 wants_def
        example_paths example_parts_segmentation loadmat_example_files ndim_def shape2_def)
  from metadata_static[where loadmat = loadmat_example and m = ?m and categories = None
      and h = store_example, THEN conjunct2, THEN conjunct2, THEN conjunct1]
  have "snd (resolve_segmentation loadmat_example ?m None store_example) = store_example" .
  with v have r: "resolve_segmentation loadmat_example ?m None store_example
     = (Inr ([(''part'', Int16Array [[2, 1, 0]]), (''object'', MatArray [[7, 7, 9]])], (1, 3)),
        store_example)"
    by (metis prod.collapse)
  from metadata_static[where self = pascal_example and i = 0 and j = 1
      and loadmat = loadmat_example and m = ?m' and categories = None and h = store_example,
      THEN conjunct1, rule_format, OF conjI[OF m0 m1]]
  have "(''/data'', ''part'', ''context'', 4)
     = (self_directory pascal_example, self_partdir pascal_example,
        self_contextdir pascal_example, self_part_key pascal_example)"
    and "snd (resolve_segmentation loadmat_example ?m' None store_example) 4 = store_example 4"
    by blast+
  with m0 m1 r s4 show ?thesis by simp
qed

section \<open>Properties of load_part2ind\<close>

lemma for_loop_inv:
  assumes "\<And>s x s'. x \<in> set xs \<Longrightarrow> P s \<Longrightarrow> body s x = Inr s' \<Longrightarrow> P s'"
    and "P s" and "for_loop body s xs = Inr s'"
  shows "P s'"
  using assms
proof (induction xs arbitrary: s)
  case Nil
  then show ?case by simp
next
  case (Cons x xs)
  from Cons.prems(3) obtain s1 where s1: "body s x = Inr s1" "for_loop body s1 xs = Inr s'"
    by (auto split: sum.splits)
  from Cons.prems(1)[OF _ Cons.prems(2) s1(1)] have p1: "P s1" by simp
  have "P t'" if "y \<in> set xs" "P t" "body t y = Inr t'" for t y t'
    using Cons.prems(1)[of y t t'] that by simp
  from Cons.IH[OF this p1 s1(2)] show ?case .
qed

lemma dict_setitem_dom: "fst ` set (dict_setitem d k v) = insert k (fst ` set d)"
  by (induction d) (force split: if_splits)+

lemma dict_setitem_distinct:
  "distinct (map fst d) \<Longrightarrow> distinct (map fst (dict_setitem d k v))"
proof (induction d)
  case Nil
  then show ?case by simp
next
  case (Cons a d)
  obtain k' v' where a: "a = (k', v')" by (cases a)
  show ?case
  proof (cases "k' = k")
    case True
    with Cons.prems a show ?thesis by simp
  next
    case False
    from Cons.prems a have "k' \<notin> fst ` set d" "distinct (map fst d)" by simp_all
    with False Cons.IH have "k' \<notin> fst ` set (dict_setitem d k v)"
      "distinct (map fst (dict_setitem d k v))" by (simp_all add: dict_setitem_dom)
    with False a show ?thesis by simp
  qed
qed

lemma dict_setitem_all:
  "list_all P d \<Longrightarrow> P (k, v) \<Longrightarrow> list_all P (dict_setitem d k v)"
  by (induction d) auto

lemma py_int_nonneg: "py_int s = Inr n \<Longrightarrow> 0 \<le> n"
  by (auto simp: py_int_def split: if_splits)

lemma int_group_nonneg: "int_group m k = Inr n \<Longrightarrow> 0 \<le> n"
  by (auto simp: int_group_def split: option.splits dest: py_int_nonneg)

lemma read_var_Inr: "read_var v = Inr x \<Longrightarrow> v = Some x"
  by (auto simp: read_var_def split: option.splits)

lemma p2i_inv_setitem:
  assumes "p2i_inv H R st" "0 \<le> c" "n \<in> H" "r \<in> R"
  shows "p2i_inv H R (st\<lparr>result := dict_setitem (result st) (c, p) (n, r)\<rparr>)"
  using assms by (simp add: p2i_inv_def dict_setitem_distinct dict_setitem_all)

lemma p2i_inv_index:
  assumes "p2i_inv H R st" "0 \<le> c"
  shows "p2i_inv H R (st\<lparr>object_index := Some c\<rparr>)"
  using assms by (simp add: p2i_inv_def)

lemma p2i_inv_name: "p2i_inv H R st \<Longrightarrow> object_name st = Some n \<Longrightarrow> n \<in> H"
  by (simp add: p2i_inv_def)

lemma part_line_inv:
  assumes "p2i_inv H R st" and "\<And>pn. m 2 = Some pn \<Longrightarrow> readable_or (m 4) pn \<in> R"
    and "part_line st m = Inr st'"
  shows "p2i_inv H R st'"
proof -
  from assms(3) obtain pn oi oname where pn: "m 2 = Some pn"
    and oi: "int_group m 1 = Inr oi" and on: "read_var (object_name st) = Inr oname"
    and st': "st' = st\<lparr>object_index := Some oi,
                       result := dict_setitem (result st) (oi, pn)
                                   (oname, readable_or (m 4) pn)\<rparr>"
    unfolding part_line_def Let_def by (auto split: option.splits sum.splits)
  from int_group_nonneg[OF oi] have nn: "0 \<le> oi" .
  from p2i_inv_name[OF assms(1) read_var_Inr[OF on]] have h: "oname \<in> H" .
  from p2i_inv_setitem[OF p2i_inv_index[OF assms(1) nn] nn h assms(2)[OF pn], of pn]
  show ?thesis unfolding st' by simp
qed

lemma range_body_inv:
  assumes "p2i_inv H R st" "0 \<le> oi" "rn \<in> R" "range_body oi pn rn st i = Inr st'"
  shows "p2i_inv H R st'"
proof -
  from assms(4) obtain oname where on: "read_var (object_name st) = Inr oname"
    and st': "st' = st\<lparr>result := dict_setitem (result st) (oi, pn @ ''_'' @ decimal i)
                                   (oname, rn)\<rparr>"
    unfolding range_body_def by (auto split: sum.splits)
  from p2i_inv_name[OF assms(1) read_var_Inr[OF on]] have "oname \<in> H" .
  from p2i_inv_setitem[OF assms(1,2) this assms(3)] show ?thesis unfolding st' .
qed

lemma range_line_inv:
  assumes "p2i_inv H R st" and "\<And>pn. m 2 = Some pn \<Longrightarrow> readable_multiple (m 4) pn \<in> R"
    and "range_line st m = Inr st'"
  shows "p2i_inv H R st'"
proof -
  from assms(3) obtain pn oi n where pn: "m 2 = Some pn"
    and oi: "int_group m 1 = Inr oi"
    and loop: "for_loop (range_body oi pn (readable_multiple (m 4) pn))
                 (st\<lparr>object_index := Some oi\<rparr>) [1..<Suc (nat n)] = Inr st'"
    unfolding range_line_def Let_def by (auto split: option.splits sum.splits)
  from int_group_nonneg[OF oi] have nn: "0 \<le> oi" .
  show ?thesis
    by (rule for_loop_inv[where P = "p2i_inv H R", OF _ p2i_inv_index[OF assms(1) nn] loop])
       (rule range_body_inv[OF _ nn assms(2)[OF pn]])
qed

lemma silhouette_line_inv:
  assumes "p2i_inv H R st" "''silhouette'' \<in> R" "silhouette_line st = Inr st'"
  shows "p2i_inv H R st'"
proof -
  from assms(3) obtain oi oname where
    oi: "read_var (object_index st) = Inr oi" and on: "read_var (object_name st) = Inr oname"
    and st': "st' = st\<lparr>object_index := Some (oi + 1),
                       result := dict_setitem (result st) (oi + 1, ''silhouette'')
                                   (oname, ''silhouette'')\<rparr>"
    unfolding silhouette_line_def by (auto split: sum.splits)
  from assms(1) read_var_Inr[OF oi] have nn: "0 \<le> oi + 1" by (simp add: p2i_inv_def)
  from p2i_inv_name[OF assms(1) read_var_Inr[OF on]] have h: "oname \<in> H" .
  from p2i_inv_setitem[OF p2i_inv_index[OF assms(1) nn] nn h assms(2)] show ?thesis
    unfolding st' by simp
qed

lemma copy_body_inv:
  assumes "p2i_inv H R st" "0 \<le> oi" "snd (snd item) \<in> R" "copy_body oi st item = Inr st'"
  shows "p2i_inv H R st'"
proof -
  obtain other_obj part_index val where item: "item = ((other_obj, part_index), val)"
    by (cases item) auto
  from assms(4) consider "st' = st"
    | oname where "read_var (object_name st) = Inr oname"
        "st' = st\<lparr>result := dict_setitem (result st) (oi, part_index) (oname, snd val)\<rparr>"
    unfolding copy_body_def item by (auto split: sum.splits if_splits)
  then show ?thesis
  proof cases
    case 1
    with assms(1) show ?thesis by simp
  next
    case 2
    from p2i_inv_name[OF assms(1) read_var_Inr[OF 2(1)]] have "oname \<in> H" .
    moreover from assms(3) item have "snd val \<in> R" by simp
    ultimately show ?thesis using p2i_inv_setitem[OF assms(1,2)] unfolding 2(2) by blast
  qed
qed

lemma copy_line_inv:
  assumes "p2i_inv H R st" "copy_line st m = Inr st'"
  shows "p2i_inv H R st'"
proof -
  from assms(2) obtain oi where oi: "int_group m 1 = Inr oi"
    and loop: "for_loop (copy_body oi) (st\<lparr>object_index := Some oi\<rparr>) (result st) = Inr st'"
    unfolding copy_line_def by (auto split: sum.splits)
  from int_group_nonneg[OF oi] have nn: "0 \<le> oi" .
  from assms(1) have items: "snd (snd item) \<in> R" if "item \<in> set (result st)" for item
    using that by (auto simp: p2i_inv_def list_all_iff)
  show ?thesis
    by (rule for_loop_inv[where P = "p2i_inv H R", OF _ p2i_inv_index[OF assms(1) nn] loop])
       (rule copy_body_inv[OF _ nn items])
qed

lemma header_names_mem:
  assumes "line \<in> set lines" "re_match header_rx line = Some m" "m 1 = Some n"
  shows "n \<in> set (header_names lines)"
proof -
  let ?f = "\<lambda>line. case re_match header_rx line of None \<Rightarrow> None | Some m \<Rightarrow> m 1"
  from assms(2,3) have "?f line = Some n" by simp
  with assms(1) have "n \<in> set (List.map_filter ?f lines)"
    by (induction lines) (auto split: option.splits)
  then show ?thesis by (simp add: header_names_def)
qed

lemma readable_names_part:
  assumes "line \<in> set lines" "re_match part_rx line = Some m" "m 2 = Some pn"
  shows "readable_or (m 4) pn \<in> set (readable_names lines)"
  using assms unfolding readable_names_def by force

lemma readable_names_range:
  assumes "line \<in> set lines" "re_match range_rx line = Some m" "m 2 = Some pn"
  shows "readable_multiple (m 4) pn \<in> set (readable_names lines)"
  using assms unfolding readable_names_def by force

lemma readable_names_silhouette: "''silhouette'' \<in> set (readable_names lines)"
  by (simp add: readable_names_def)

lemma p2i_line_inv:
  assumes inv: "p2i_inv (set (header_names lines)) (set (readable_names lines)) st"
    and mem: "line \<in> set lines"
    and step: "p2i_line st line = Inr st'"
  shows "p2i_inv (set (header_names lines)) (set (readable_names lines)) st'"
proof (cases "re_match header_rx line")
  case (Some m)
  with step have st': "st' = st\<lparr>object_name := m 1\<rparr>" by (simp add: p2i_line_def)
  show ?thesis
  proof (cases "m 1")
    case None
    with inv show ?thesis unfolding st' by (simp add: p2i_inv_def)
  next
    case (Some n)
    from header_names_mem[OF mem \<open>re_match header_rx line = Some m\<close> Some] inv Some
    show ?thesis unfolding st' by (simp add: p2i_inv_def)
  qed
next
  case h: None
  show ?thesis
  proof (cases "re_match part_rx line")
    case (Some m)
    with step h have "part_line st m = Inr st'" by (simp add: p2i_line_def)
    from part_line_inv[OF inv readable_names_part[OF mem Some] this] show ?thesis .
  next
    case p: None
    show ?thesis
    proof (cases "re_match for_rx line")
      case (Some m)
      with step h p obtain n where "st' = st\<lparr>iteration_count := Some n\<rparr>"
        by (auto simp: p2i_line_def split: sum.splits)
      with inv show ?thesis by (simp add: p2i_inv_def)
    next
      case f: None
      show ?thesis
      proof (cases "re_match range_rx line")
        case (Some m)
        with step h p f have "range_line st m = Inr st'" by (simp add: p2i_line_def)
        from range_line_inv[OF inv readable_names_range[OF mem Some] this] show ?thesis .
      next
        case r: None
        from step h p f r obtain st1 where
          s1: "(case re_match silhouette_rx line of Some m \<Rightarrow> silhouette_line st
                | None \<Rightarrow> Inr st) = Inr st1"
          and rest: "(case re_match keyset_rx line of
                Some m \<Rightarrow>
                  (case int_group m 2 of
                     Inl e \<Rightarrow> Inl e
                   | Inr n \<Rightarrow> Inr (st1\<lparr>object_to_copy := Some n\<rparr>))
              | None \<Rightarrow>
             (case re_match copy_rx line of
                Some m \<Rightarrow> copy_line st1 m
              | None \<Rightarrow>
             (case re_match ignore_rx line of
                Some m \<Rightarrow> Inr st1
              | None \<Rightarrow> Inl SystemExit))) = Inr st'"
          by (auto simp: p2i_line_def split: sum.splits)
        have inv1: "p2i_inv (set (header_names lines)) (set (readable_names lines)) st1"
          using s1 inv silhouette_line_inv[OF inv readable_names_silhouette]
          by (auto split: option.splits)
        show ?thesis
        proof (cases "re_match keyset_rx line")
          case (Some m)
          with rest obtain n where "st' = st1\<lparr>object_to_copy := Some n\<rparr>"
            by (auto split: sum.splits)
          with inv1 show ?thesis by (simp add: p2i_inv_def)
        next
          case k: None
          show ?thesis
          proof (cases "re_match copy_rx line")
            case (Some m)
            with rest k have "copy_line st1 m = Inr st'" by simp
            from copy_line_inv[OF inv1 this] show ?thesis .
          next
            case None
            with rest k have "st' = st1" by (auto split: option.splits)
            with inv1 show ?thesis by simp
          qed
        qed
      qed
    qed
  qed
qed

lemma for_loop_append:
  "for_loop body s (xs @ ys) =
     (case for_loop body s xs of Inl e \<Rightarrow> Inl e | Inr s' \<Rightarrow> for_loop body s' ys)"
  by (induction xs arbitrary: s) (auto split: sum.splits)

lemma dict_setitem_map_of: "map_of (dict_setitem d k v) = (map_of d)(k \<mapsto> v)"
  by (induction d) auto

lemma range_loop:
  assumes "for_loop (range_body oi base rn) s js = Inr s'"
  shows "object_name s' = object_name s \<and> iteration_count s' = iteration_count s \<and>
         object_index s' = object_index s \<and> object_to_copy s' = object_to_copy s \<and>
         (js \<noteq> [] \<longrightarrow> object_name s \<noteq> None) \<and>
         (\<forall>k. map_of (result s') k =
            (if k \<in> (\<lambda>j. (oi, base @ ''_'' @ decimal j)) ` set js
             then Some (the (object_name s), rn) else map_of (result s) k))"
  using assms
proof (induction js arbitrary: s)
  case Nil
  then show ?case by simp
next
  case (Cons j js)
  from Cons.prems obtain s1 where s1: "range_body oi base rn s j = Inr s1"
    and rest: "for_loop (range_body oi base rn) s1 js = Inr s'"
    by (auto split: sum.splits)
  from s1 obtain oname where on: "object_name s = Some oname"
    and s1': "s1 = s\<lparr>result := dict_setitem (result s) (oi, base @ ''_'' @ decimal j)
                                   (oname, rn)\<rparr>"
    unfolding range_body_def by (auto split: sum.splits dest: read_var_Inr)
  note ih = Cons.IH[OF rest]
  from ih have v: "object_name s' = object_name s" "iteration_count s' = iteration_count s"
    "object_index s' = object_index s" "object_to_copy s' = object_to_copy s"
    by (simp_all add: s1')
  have "map_of (result s') k =
            (if k \<in> (\<lambda>j. (oi, base @ ''_'' @ decimal j)) ` set (j # js)
             then Some (the (object_name s), rn) else map_of (result s) k)" for k
  proof -
    from ih have "map_of (result s') k =
            (if k \<in> (\<lambda>j. (oi, base @ ''_'' @ decimal j)) ` set js
             then Some (the (object_name s1), rn) else map_of (result s1) k)"
      by blast
    then show ?thesis
      using on by (auto simp: s1' dict_setitem_map_of)
  qed
  with v on show ?case by simp
qed

lemma copy_loop:
  assumes "for_loop (copy_body oi) s items = Inr s'" "distinct (map fst items)"
  shows "object_name s' = object_name s \<and> iteration_count s' = iteration_count s \<and>
         object_index s' = object_index s \<and> object_to_copy s' = object_to_copy s \<and>
         (items \<noteq> [] \<longrightarrow> object_to_copy s \<noteq> None) \<and>
         (\<forall>pn val. map_of items (the (object_to_copy s), pn) = Some val
            \<longrightarrow> object_name s \<noteq> None) \<and>
         (\<forall>c pn. map_of (result s') (c, pn) =
            (case (if c = oi then map_of items (the (object_to_copy s), pn) else None) of
               Some val \<Rightarrow> Some (the (object_name s), snd val)
             | None \<Rightarrow> map_of (result s) (c, pn)))"
  using assms
proof (induction items arbitrary: s)
  case Nil
  then show ?case by simp
next
  case (Cons item items)
  obtain oc pn0 val0 where item: "item = ((oc, pn0), val0)" by (cases item) auto
  from Cons.prems(1) obtain s1 where s1: "copy_body oi s item = Inr s1"
    and rest: "for_loop (copy_body oi) s1 items = Inr s'"
    by (auto split: sum.splits)
  from s1 obtain src where src: "object_to_copy s = Some src"
    unfolding copy_body_def item by (auto split: sum.splits dest: read_var_Inr)
  from Cons.prems(2) item have d: "distinct (map fst items)"
    and fresh: "map_of items (oc, pn0) = None"
    by (simp_all add: map_of_eq_None_iff)
  note ih = Cons.IH[OF rest d]
  show ?case
  proof (cases "oc = src")
    case False
    with s1 src have "s1 = s" unfolding copy_body_def item by (simp add: read_var_def)
    with ih src False show ?thesis by (auto simp: item split: option.splits)
  next
    case True
    with s1 src obtain oname where on: "object_name s = Some oname"
      and s1': "s1 = s\<lparr>result := dict_setitem (result s) (oi, pn0) (oname, snd val0)\<rparr>"
      unfolding copy_body_def item by (auto simp: read_var_def split: option.splits)
    from ih have v: "object_name s' = object_name s" "iteration_count s' = iteration_count s"
      "object_index s' = object_index s" "object_to_copy s' = object_to_copy s"
      by (simp_all add: s1')
    have "map_of (result s') (c, pn) =
            (case (if c = oi then map_of (item # items) (the (object_to_copy s), pn) else None) of
               Some val \<Rightarrow> Some (the (object_name s), snd val)
             | None \<Rightarrow> map_of (result s) (c, pn))" for c pn
    proof -
      from ih have "map_of (result s') (c, pn) =
            (case (if c = oi then map_of items (the (object_to_copy s1), pn) else None) of
               Some val \<Rightarrow> Some (the (object_name s1), snd val)
             | None \<Rightarrow> map_of (result s1) (c, pn))"
        by blast
      then have "map_of (result s') (c, pn) =
            (case (if c = oi then map_of items (src, pn) else None) of
               Some val \<Rightarrow> Some (oname, snd val)
             | None \<Rightarrow> map_of (result s1) (c, pn))"
        using src on by (simp add: s1' cong: if_cong option.case_cong)
      then show ?thesis
        using fresh True src on
        by (auto simp: item s1' dict_setitem_map_of split: option.splits)
    qed
    with v src on show ?thesis by simp
  qed
qed

lemma silhouette_start:
  assumes "re_match silhouette_rx line = Some m"
  shows "\<exists>rest. line = CHR ''%'' # rest"
proof -
  from assms have "take (length ''% only has si'') line = ''% only has si''"
    by (auto simp: re_match_def silhouette_rx_def split: if_splits list.splits)
  then show ?thesis by (cases line) auto
qed

lemma silhouette_exclusive:
  assumes "re_match silhouette_rx line = Some m"
  shows "re_match keyset_rx line = None" "re_match copy_rx line = None"
proof -
  from silhouette_start[OF assms] obtain rest where l: "line = CHR ''%'' # rest" by blast
  show "re_match keyset_rx line = None"
    unfolding l by (simp add: re_match_def keyset_rx_def)
  show "re_match copy_rx line = None"
    unfolding l by (simp add: re_match_def copy_rx_def)
qed

lemma p2i_line_kind:
  "p2i_line st line =
     (case kind_of line of
        HeaderLine m \<Rightarrow> Inr (st\<lparr>object_name := m 1\<rparr>)
      | PartLine m \<Rightarrow> part_line st m
      | ForLine m \<Rightarrow>
          (case int_group m 1 of
             Inl e \<Rightarrow> Inl e
           | Inr n \<Rightarrow> Inr (st\<lparr>iteration_count := Some n\<rparr>))
      | RangeLine m \<Rightarrow> range_line st m
      | SilhouetteLine \<Rightarrow>
          (case silhouette_line st of
             Inl e \<Rightarrow> Inl e
           | Inr st1 \<Rightarrow>
              (case re_match ignore_rx line of Some m \<Rightarrow> Inr st1 | None \<Rightarrow> Inl SystemExit))
      | KeysetLine m \<Rightarrow>
          (case int_group m 2 of
             Inl e \<Rightarrow> Inl e
           | Inr n \<Rightarrow> Inr (st\<lparr>object_to_copy := Some n\<rparr>))
      | CopyLine m \<Rightarrow> copy_line st m
      | OtherLine \<Rightarrow>
          (case re_match ignore_rx line of Some m \<Rightarrow> Inr st | None \<Rightarrow> Inl SystemExit))"
proof (cases "re_match silhouette_rx line")
  case None
  then show ?thesis
    by (simp add: p2i_line_def kind_of_def split: option.splits)
next
  case (Some m)
  from silhouette_exclusive[OF Some] Some show ?thesis
    by (simp add: p2i_line_def kind_of_def split: option.splits sum.splits)
qed

lemma name_after_snoc:
  "name_after (ls @ [l]) = (case kind_of l of HeaderLine m \<Rightarrow> m 1 | _ \<Rightarrow> name_after ls)"
  by (simp add: name_after_def cong: line_kind.case_cong)

lemma count_after_snoc:
  "count_after (ls @ [l])
     = (case kind_of l of ForLine m \<Rightarrow> group_int m 1 | _ \<Rightarrow> count_after ls)"
  by (simp add: count_after_def cong: line_kind.case_cong)

lemma source_after_snoc:
  "source_after (ls @ [l])
     = (case kind_of l of KeysetLine m \<Rightarrow> group_int m 2 | _ \<Rightarrow> source_after ls)"
  by (simp add: source_after_def cong: line_kind.case_cong)

lemma index_after_snoc:
  "index_after (ls @ [l])
     = (case kind_of l of
          PartLine m \<Rightarrow> group_int m 1
        | RangeLine m \<Rightarrow> group_int m 1
        | CopyLine m \<Rightarrow> group_int m 1
        | SilhouetteLine \<Rightarrow> map_option (\<lambda>n. n + 1) (index_after ls)
        | _ \<Rightarrow> index_after ls)"
  by (simp add: index_after_def cong: line_kind.case_cong)

lemmas after_snoc = name_after_snoc count_after_snoc source_after_snoc index_after_snoc

lemma gives_last:
  "gives (ls @ [l]) (length ls) k v \<longleftrightarrow>
     name_after ls = Some (fst v) \<and>
     (case kind_of l of
        PartLine m \<Rightarrow>
          group_int m 1 = Some (fst k) \<and> m 2 = Some (snd k) \<and>
          snd v = readable_or (m 4) (snd k)
      | RangeLine m \<Rightarrow>
          group_int m 1 = Some (fst k) \<and>
          (case m 2 of
             None \<Rightarrow> False
           | Some base \<Rightarrow>
              (case count_after ls of
                 None \<Rightarrow> False
               | Some n \<Rightarrow>
                   snd k \<in> set (map (\<lambda>j. base @ ''_'' @ decimal j) [1..<Suc (nat n)]) \<and>
                   snd v = readable_multiple (m 4) base))
      | SilhouetteLine \<Rightarrow>
          map_option (\<lambda>n. n + 1) (index_after ls) = Some (fst k) \<and>
          snd k = ''silhouette'' \<and> snd v = ''silhouette''
      | CopyLine m \<Rightarrow>
          group_int m 1 = Some (fst k) \<and>
          (case source_after ls of
             None \<Rightarrow> False
           | Some src \<Rightarrow>
              (case load_part2ind (\<lambda>_. Inr ls) [] of
                 Inl e \<Rightarrow> False
               | Inr d \<Rightarrow> map_option snd (map_of d (src, snd k)) = Some (snd v)))
      | _ \<Rightarrow> False)"
  by (simp add: gives_def cong: line_kind.case_cong option.case_cong sum.case_cong)

lemma gives_prefix: "i < length ls \<Longrightarrow> gives (ls @ ms) i k v = gives ls i k v"
  by (simp add: gives_def nth_append cong: line_kind.case_cong option.case_cong sum.case_cong)

lemma gives_bound: "gives ls i k v \<Longrightarrow> i < length ls"
  by (simp add: gives_def)

lemma group_int_Inr: "int_group m k = Inr n \<Longrightarrow> group_int m k = Some n"
  by (simp add: group_int_def)

lemma p2i_step:
  fixes st :: p2i_state
  assumes run: "load_part2ind (\<lambda>_. Inr ls) [] = Inr (result st)"
    and step: "p2i_line st l = Inr st'"
    and tr: "object_name st = name_after ls" "iteration_count st = count_after ls"
      "object_index st = index_after ls" "object_to_copy st = source_after ls"
    and dist: "distinct (map fst (result st))"
  shows "object_name st' = name_after (ls @ [l]) \<and>
         iteration_count st' = count_after (ls @ [l]) \<and>
         object_index st' = index_after (ls @ [l]) \<and>
         object_to_copy st' = source_after (ls @ [l]) \<and>
         (\<forall>k v. gives (ls @ [l]) (length ls) k v \<longrightarrow> map_of (result st') k = Some v) \<and>
         (\<forall>k. (\<forall>v. \<not> gives (ls @ [l]) (length ls) k v)
              \<longrightarrow> map_of (result st') k = map_of (result st) k)"
proof (cases "kind_of l")
  case (HeaderLine m)
  with step have "st' = st\<lparr>object_name := m 1\<rparr>" by (simp add: p2i_line_kind)
  with HeaderLine tr show ?thesis by (simp add: after_snoc gives_last)
next
  case (PartLine m)
  with step have "part_line st m = Inr st'" by (simp add: p2i_line_kind)
  then obtain pn oi oname where pn: "m 2 = Some pn"
    and oi: "int_group m 1 = Inr oi" and on: "object_name st = Some oname"
    and st': "st' = st\<lparr>object_index := Some oi,
                       result := dict_setitem (result st) (oi, pn)
                                   (oname, readable_or (m 4) pn)\<rparr>"
    unfolding part_line_def Let_def
    by (auto split: option.splits sum.splits dest: read_var_Inr)
  have g: "gives (ls @ [l]) (length ls) k v \<longleftrightarrow>
             k = (oi, pn) \<and> v = (oname, readable_or (m 4) pn)" for k v
    using PartLine pn group_int_Inr[OF oi] on tr(1)
    by (cases k; cases v) (auto simp: gives_last)
  show ?thesis
    unfolding g using PartLine tr group_int_Inr[OF oi]
    by (simp add: after_snoc st' dict_setitem_map_of)
next
  case (ForLine m)
  with step obtain n where "int_group m 1 = Inr n" "st' = st\<lparr>iteration_count := Some n\<rparr>"
    by (auto simp: p2i_line_kind split: sum.splits)
  with ForLine tr show ?thesis by (simp add: after_snoc gives_last group_int_Inr)
next
  case (RangeLine m)
  with step have "range_line st m = Inr st'" by (simp add: p2i_line_kind)
  then obtain base oi n where base: "m 2 = Some base"
    and oi: "int_group m 1 = Inr oi" and n: "iteration_count st = Some n"
    and loop: "for_loop (range_body oi base (readable_multiple (m 4) base))
                 (st\<lparr>object_index := Some oi\<rparr>) [1..<Suc (nat n)] = Inr st'"
    unfolding range_line_def Let_def
    by (auto split: option.splits sum.splits dest: read_var_Inr)
  define js where "js = [1..<Suc (nat n)]"
  have js_set: "set js = {1..<Suc (nat n)}" unfolding js_def by (rule set_upt)
  note rl = range_loop[OF loop[folded js_def]]
  let ?keys = "(\<lambda>j. (oi, base @ ''_'' @ decimal j)) ` set js"
  let ?rn = "readable_multiple (m 4) base"
  from rl have v: "object_name st' = object_name st" "iteration_count st' = iteration_count st"
    "object_index st' = Some oi" "object_to_copy st' = object_to_copy st"
    by simp_all
  from rl have ne: "js \<noteq> [] \<longrightarrow> object_name st \<noteq> None" by simp
  from rl have "\<forall>k. map_of (result st') k =
      (if k \<in> ?keys then Some (the (object_name (st\<lparr>object_index := Some oi\<rparr>)), ?rn)
       else map_of (result (st\<lparr>object_index := Some oi\<rparr>)) k)"
    by blast
  then have "map_of (result st') k =
      (if k \<in> ?keys then Some (the (object_name (st\<lparr>object_index := Some oi\<rparr>)), ?rn)
       else map_of (result (st\<lparr>object_index := Some oi\<rparr>)) k)" for k
    by (rule spec)
  then have mp: "map_of (result st') k =
      (if k \<in> ?keys then Some (the (object_name st), ?rn) else map_of (result st) k)" for k
    by (simp cong: if_cong)
  have g: "gives (ls @ [l]) (length ls) k v \<longleftrightarrow>
             k \<in> ?keys \<and> v = (the (object_name st), ?rn)" for k v
  proof -
    have "k \<in> ?keys \<Longrightarrow> \<exists>oname. name_after ls = Some oname"
      using ne tr(1) by auto
    then show ?thesis
      using RangeLine base group_int_Inr[OF oi] n tr(1,2)
      by (cases k; cases v) (auto simp: gives_last js_set)
  qed
  show ?thesis
    unfolding g mp using RangeLine tr v group_int_Inr[OF oi]
    by (simp add: after_snoc)
next
  case SilhouetteLine
  with step obtain st1 where "silhouette_line st = Inr st1" "st' = st1"
    by (auto simp: p2i_line_kind split: sum.splits option.splits)
  then obtain oi oname where oi: "object_index st = Some oi"
    and on: "object_name st = Some oname"
    and st': "st' = st\<lparr>object_index := Some (oi + 1),
                       result := dict_setitem (result st) (oi + 1, ''silhouette'')
                                   (oname, ''silhouette'')\<rparr>"
    unfolding silhouette_line_def by (auto split: sum.splits dest: read_var_Inr)
  have g: "gives (ls @ [l]) (length ls) k v \<longleftrightarrow>
             k = (oi + 1, ''silhouette'') \<and> v = (oname, ''silhouette'')" for k v
    using SilhouetteLine oi on tr(1,3)
    by (cases k; cases v) (auto simp: gives_last)
  from oi tr(3) have ia: "index_after ls = Some oi" by simp
  show ?thesis
    unfolding g using SilhouetteLine tr(1,2,4) ia
    by (simp add: after_snoc st' dict_setitem_map_of)
next
  case (KeysetLine m)
  with step obtain n where "int_group m 2 = Inr n" "st' = st\<lparr>object_to_copy := Some n\<rparr>"
    by (auto simp: p2i_line_kind split: sum.splits)
  with KeysetLine tr show ?thesis by (simp add: after_snoc gives_last group_int_Inr)
next
  case (CopyLine m)
  with step have "copy_line st m = Inr st'" by (simp add: p2i_line_kind)
  then obtain oi where oi: "int_group m 1 = Inr oi"
    and loop: "for_loop (copy_body oi) (st\<lparr>object_index := Some oi\<rparr>) (result st) = Inr st'"
    unfolding copy_line_def by (auto split: sum.splits)
  note cl = copy_loop[OF loop dist]
  from cl have v: "object_name st' = object_name st" "iteration_count st' = iteration_count st"
    "object_index st' = Some oi" "object_to_copy st' = object_to_copy st"
    by simp_all
  from cl have ne: "result st \<noteq> [] \<Longrightarrow> object_to_copy st \<noteq> None" by simp
  let ?st = "st\<lparr>object_index := Some oi\<rparr>"
  from cl have "\<forall>pn val. map_of (result st) (the (object_to_copy ?st), pn) = Some val
      \<longrightarrow> object_name ?st \<noteq> None"
    by blast
  then have nm: "map_of (result st) (the (object_to_copy st), pn) = Some val
      \<Longrightarrow> object_name st \<noteq> None" for pn val
    by (cases val) auto
  from cl have "\<forall>c pn. map_of (result st') (c, pn) =
      (case (if c = oi then map_of (result st) (the (object_to_copy ?st), pn) else None) of
         Some val \<Rightarrow> Some (the (object_name ?st), snd val)
       | None \<Rightarrow> map_of (result ?st) (c, pn))"
    by blast
  then have "map_of (result st') (c, pn) =
      (case (if c = oi then map_of (result st) (the (object_to_copy ?st), pn) else None) of
         Some val \<Rightarrow> Some (the (object_name ?st), snd val)
       | None \<Rightarrow> map_of (result ?st) (c, pn))" for c pn
    by blast
  then have mp: "map_of (result st') (c, pn) =
      (case (if c = oi then map_of (result st) (the (object_to_copy st), pn) else None) of
         Some val \<Rightarrow> Some (the (object_name st), snd val)
       | None \<Rightarrow> map_of (result st) (c, pn))" for c pn
    by (simp cong: if_cong option.case_cong)
  have g: "gives (ls @ [l]) (length ls) (c, pn) (a, b) \<longleftrightarrow>
             c = oi \<and> (\<exists>val. map_of (result st) (the (object_to_copy st), pn) = Some val \<and>
                          a = the (object_name st) \<and> b = snd val)" for c pn a b
  proof
    assume "gives (ls @ [l]) (length ls) (c, pn) (a, b)"
    then show "c = oi \<and> (\<exists>val. map_of (result st) (the (object_to_copy st), pn) = Some val \<and>
                          a = the (object_name st) \<and> b = snd val)"
      using CopyLine group_int_Inr[OF oi] tr(1,4) run
      by (auto simp: gives_last split: option.splits)
  next
    assume a: "c = oi \<and> (\<exists>val. map_of (result st) (the (object_to_copy st), pn) = Some val \<and>
                          a = the (object_name st) \<and> b = snd val)"
    then obtain val where val: "map_of (result st) (the (object_to_copy st), pn) = Some val"
      and ab: "a = the (object_name st)" "b = snd val" and c: "c = oi" by blast
    from val have "result st \<noteq> []" by auto
    from ne[OF this] obtain src where src: "object_to_copy st = Some src" by auto
    from nm[OF val] obtain oname where on: "object_name st = Some oname" by auto
    from on tr(1) have na: "name_after ls = Some oname" by simp
    from src tr(4) have sa: "source_after ls = Some src" by simp
    from val src have val': "map_of (result st) (src, pn) = Some val" by simp
    from ab on have ab': "a = oname" "b = snd val" by simp_all
    show "gives (ls @ [l]) (length ls) (c, pn) (a, b)"
      using CopyLine group_int_Inr[OF oi] run na sa val' ab' c
      by (simp add: gives_last)
  qed
  have w1: "map_of (result st') k = Some v" if "gives (ls @ [l]) (length ls) k v" for k v
    using that g[of "fst k" "snd k" "fst v" "snd v"] mp[of "fst k" "snd k"]
    by (cases v) auto
  have w2: "map_of (result st') k = map_of (result st) k"
    if "\<forall>v. \<not> gives (ls @ [l]) (length ls) k v" for k
  proof -
    from that have "\<not> gives (ls @ [l]) (length ls) (fst k, snd k) (a, b)" for a b by simp
    then have "\<not> (fst k = oi \<and>
        (\<exists>val. map_of (result st) (the (object_to_copy st), snd k) = Some val))"
      unfolding g by blast
    with mp[of "fst k" "snd k"] show ?thesis by (auto split: option.splits)
  qed
  from w1 w2 show ?thesis
    using CopyLine tr v group_int_Inr[OF oi] by (simp add: after_snoc)
next
  case OtherLine
  with step have "st' = st" by (auto simp: p2i_line_kind split: option.splits)
  with OtherLine tr show ?thesis by (simp add: after_snoc gives_last)
qed

lemma p2i_run_inv:
  assumes "for_loop p2i_line st0 ls = Inr st"
    and "p2i_inv (set (header_names ls)) (set (readable_names ls)) st0"
  shows "p2i_inv (set (header_names ls)) (set (readable_names ls)) st"
  using for_loop_inv[where P = "p2i_inv (set (header_names ls)) (set (readable_names ls))",
      OF _ assms(2) assms(1)] p2i_line_inv
  by blast

lemma p2i_run:
  assumes "for_loop p2i_line
             \<lparr>object_name = None, iteration_count = None, object_index = None,
              object_to_copy = None, result = []\<rparr> ls = Inr st"
  shows "object_name st = name_after ls \<and> iteration_count st = count_after ls \<and>
         object_index st = index_after ls \<and> object_to_copy st = source_after ls \<and>
         (\<forall>k v. map_of (result st) k = Some v \<longleftrightarrow>
            (\<exists>i. gives ls i k v \<and> (\<forall>j v'. i < j \<longrightarrow> \<not> gives ls j k v')))"
  using assms
proof (induction ls arbitrary: st rule: rev_induct)
  case Nil
  then show ?case
    by (auto simp: name_after_def count_after_def index_after_def source_after_def gives_def)
next
  case (snoc l ls)
  let ?s0 = "\<lparr>object_name = None, iteration_count = None, object_index = None,
              object_to_copy = None, result = []\<rparr>"
  from snoc.prems obtain st0 where run: "for_loop p2i_line ?s0 ls = Inr st0"
    and step: "p2i_line st0 l = Inr st"
    by (auto simp: for_loop_append split: sum.splits)
  from snoc.IH[OF run] have tr: "object_name st0 = name_after ls"
    "iteration_count st0 = count_after ls" "object_index st0 = index_after ls"
    "object_to_copy st0 = source_after ls"
    and ih: "\<And>k v. map_of (result st0) k = Some v \<longleftrightarrow>
            (\<exists>i. gives ls i k v \<and> (\<forall>j v'. i < j \<longrightarrow> \<not> gives ls j k v'))"
    by blast+
  have "p2i_inv (set (header_names ls)) (set (readable_names ls)) ?s0"
    by (simp add: p2i_inv_def)
  from p2i_run_inv[OF run this] have dist: "distinct (map fst (result st0))"
    by (simp add: p2i_inv_def)
  from run have ld: "load_part2ind (\<lambda>_. Inr ls) [] = Inr (result st0)"
    by (simp add: load_part2ind_def)
  note ps = p2i_step[OF ld step tr dist]
  let ?n = "length ls"
  from ps have w1: "gives (ls @ [l]) ?n k v \<Longrightarrow> map_of (result st) k = Some v" for k v
    by blast
  from ps have w2: "(\<And>v. \<not> gives (ls @ [l]) ?n k v)
      \<Longrightarrow> map_of (result st) k = map_of (result st0) k" for k
    by blast
  have "map_of (result st) k = Some v \<longleftrightarrow>
          (\<exists>i. gives (ls @ [l]) i k v \<and> (\<forall>j v'. i < j \<longrightarrow> \<not> gives (ls @ [l]) j k v'))"
    (is "?L \<longleftrightarrow> ?R") for k v
  proof
    assume L: ?L
    show ?R
    proof (cases "\<exists>v0. gives (ls @ [l]) ?n k v0")
      case True
      then obtain v0 where g: "gives (ls @ [l]) ?n k v0" by blast
      from w1[OF g] L have "v0 = v" by simp
      moreover have "\<not> gives (ls @ [l]) j k v'" if "?n < j" for j v'
        using that gives_bound[of "ls @ [l]" j k v'] by auto
      ultimately show ?thesis using g by blast
    next
      case False
      then have no: "\<not> gives (ls @ [l]) ?n k v0" for v0 by blast
      from w2[OF this] L have "map_of (result st0) k = Some v" by simp
      with ih obtain i where gi: "gives ls i k v"
        and later: "\<And>j v'. i < j \<Longrightarrow> \<not> gives ls j k v'" by blast
      from gives_bound[OF gi] have i: "i < ?n" .
      have "\<not> gives (ls @ [l]) j k v'" if "i < j" for j v'
      proof (cases "j < ?n")
        case True
        with later[OF that] show ?thesis by (simp add: gives_prefix)
      next
        case jn: False
        show ?thesis
        proof (cases "j = ?n")
          case True
          with no[of v'] show ?thesis by simp
        next
          case False
          with jn gives_bound[of "ls @ [l]" j k v'] show ?thesis by auto
        qed
      qed
      moreover from gi i have "gives (ls @ [l]) i k v" by (simp add: gives_prefix)
      ultimately show ?thesis by blast
    qed
  next
    assume ?R
    then obtain i where gi: "gives (ls @ [l]) i k v"
      and later: "\<And>j v'. i < j \<Longrightarrow> \<not> gives (ls @ [l]) j k v'" by blast
    from gives_bound[OF gi] have "i \<le> ?n" by simp
    show ?L
    proof (cases "i = ?n")
      case True
      with gi w1 show ?thesis by simp
    next
      case False
      with \<open>i \<le> ?n\<close> have i: "i < ?n" by simp
      from later[OF i] have "map_of (result st) k = map_of (result st0) k" by (rule w2)
      moreover from gi i have "gives ls i k v" by (simp add: gives_prefix)
      moreover have "\<not> gives ls j k v'" if "i < j" for j v'
      proof (cases "j < ?n")
        case True
        with later[OF that, of v'] show ?thesis by (simp add: gives_prefix)
      next
        case False
        with gives_bound[of ls j k v'] show ?thesis by auto
      qed
      ultimately show ?thesis using ih by auto
    qed
  qed
  with ps show ?case by blast
qed

lemma silhouette_ignored:
  assumes "re_match silhouette_rx line = Some m"
  shows "re_match ignore_rx line \<noteq> None"
proof -
  from silhouette_start[OF assms] obtain rest where l: "line = CHR ''%'' # rest" by blast
  show ?thesis unfolding l by (simp add: re_match_def ignore_rx_def spaces_def py_isspace_def)
qed

lemma group_int_None: "group_int m k \<noteq> None \<longleftrightarrow> (\<exists>n. int_group m k = Inr n)"
  by (simp add: group_int_def split: sum.splits)

lemma part_line_ok:
  "(\<exists>st'. part_line st m = Inr st') \<longleftrightarrow>
     m 2 \<noteq> None \<and> group_int m 1 \<noteq> None \<and> group_int m 3 \<noteq> None \<and> object_name st \<noteq> None"
  by (auto simp: part_line_def Let_def group_int_def read_var_def
      split: option.splits sum.splits)

lemma range_loop_ok:
  "(\<exists>s'. for_loop (range_body oi base rn) s js = Inr s') \<longleftrightarrow> js = [] \<or> object_name s \<noteq> None"
proof (induction js arbitrary: s)
  case Nil
  then show ?case by simp
next
  case (Cons j js)
  show ?case
  proof (cases "object_name s")
    case None
    then show ?thesis by (simp add: range_body_def read_var_def)
  next
    case (Some oname)
    let ?s1 = "s\<lparr>result := dict_setitem (result s) (oi, base @ ''_'' @ decimal j) (oname, rn)\<rparr>"
    have "range_body oi base rn s j = Inr ?s1" by (simp add: range_body_def read_var_def Some)
    moreover have "\<exists>s'. for_loop (range_body oi base rn) ?s1 js = Inr s'"
      unfolding Cons.IH using Some by simp
    ultimately show ?thesis using Some by simp
  qed
qed

lemma range_line_ok:
  "(\<exists>st'. range_line st m = Inr st') \<longleftrightarrow>
     m 2 \<noteq> None \<and> group_int m 1 \<noteq> None \<and> group_int m 3 \<noteq> None \<and>
     (case iteration_count st of None \<Rightarrow> False | Some n \<Rightarrow> n \<le> 0 \<or> object_name st \<noteq> None)"
proof (cases "m 2")
  case None
  then show ?thesis by (simp add: range_line_def)
next
  case (Some base)
  show ?thesis
  proof (cases "int_group m 1")
    case (Inl e)
    with Some show ?thesis by (simp add: range_line_def group_int_def)
  next
    case oi: (Inr oi)
    show ?thesis
    proof (cases "int_group m 3")
      case (Inl e)
      with Some oi show ?thesis by (simp add: range_line_def group_int_def)
    next
      case first: (Inr first)
      show ?thesis
      proof (cases "iteration_count st")
        case None
        with Some oi first show ?thesis by (simp add: range_line_def group_int_def read_var_def)
      next
        case n: (Some n)
        have "[1..<Suc (nat n)] = [] \<longleftrightarrow> n \<le> 0" by auto
        with range_loop_ok[of oi base "readable_multiple (m 4) base"
            "st\<lparr>object_index := Some oi\<rparr>" "[1..<Suc (nat n)]"]
        have "(\<exists>s'. for_loop (range_body oi base (readable_multiple (m 4) base))
                 (st\<lparr>object_index := Some oi\<rparr>) [1..<Suc (nat n)] = Inr s')
              \<longleftrightarrow> n \<le> 0 \<or> object_name st \<noteq> None"
          by simp
        with Some oi first n show ?thesis
          by (simp add: range_line_def group_int_def read_var_def Let_def del: upt_Suc)
      qed
    qed
  qed
qed

lemma silhouette_line_ok:
  "(\<exists>st'. silhouette_line st = Inr st') \<longleftrightarrow> object_index st \<noteq> None \<and> object_name st \<noteq> None"
  by (auto simp: silhouette_line_def read_var_def split: option.splits sum.splits)

lemma copy_loop_ok:
  "(\<exists>s'. for_loop (copy_body oi) s items = Inr s') \<longleftrightarrow>
     (items = [] \<or> object_to_copy s \<noteq> None) \<and>
     (list_all (\<lambda>e. Some (fst (fst e)) \<noteq> object_to_copy s) items \<or> object_name s \<noteq> None)"
proof (induction items arbitrary: s)
  case Nil
  then show ?case by simp
next
  case (Cons item items)
  obtain oc pn val where item: "item = ((oc, pn), val)" by (cases item) auto
  show ?case
  proof (cases "object_to_copy s")
    case None
    then show ?thesis by (simp add: copy_body_def item read_var_def)
  next
    case src: (Some src)
    show ?thesis
    proof (cases "oc = src")
      case False
      then have "copy_body oi s item = Inr s" by (simp add: copy_body_def item read_var_def src)
      with Cons.IH[of s] False src show ?thesis by (auto simp: item)
    next
      case True
      show ?thesis
      proof (cases "object_name s")
        case None
        with True src show ?thesis by (simp add: copy_body_def item read_var_def)
      next
        case (Some oname)
        let ?s1 = "s\<lparr>result := dict_setitem (result s) (oi, pn) (oname, snd val)\<rparr>"
        from True src Some have "copy_body oi s item = Inr ?s1"
          by (simp add: copy_body_def item read_var_def)
        with Cons.IH[of ?s1] src Some show ?thesis by simp
      qed
    qed
  qed
qed

lemma copy_line_ok:
  "(\<exists>st'. copy_line st m = Inr st') \<longleftrightarrow>
     group_int m 1 \<noteq> None \<and>
     (result st = [] \<or> object_to_copy st \<noteq> None) \<and>
     (list_all (\<lambda>e. Some (fst (fst e)) \<noteq> object_to_copy st) (result st) \<or>
      object_name st \<noteq> None)"
proof (cases "int_group m 1")
  case (Inl e)
  then show ?thesis by (simp add: copy_line_def group_int_def)
next
  case (Inr oi)
  with copy_loop_ok[of oi "st\<lparr>object_index := Some oi\<rparr>" "result st"]
  show ?thesis by (simp add: copy_line_def group_int_def)
qed

lemma line_ok_last:
  "line_ok (ls @ [l]) (length ls) \<longleftrightarrow>
     (case kind_of l of
        HeaderLine m \<Rightarrow> True
      | PartLine m \<Rightarrow>
          m 2 \<noteq> None \<and> group_int m 1 \<noteq> None \<and> group_int m 3 \<noteq> None \<and>
          name_after ls \<noteq> None
      | ForLine m \<Rightarrow> group_int m 1 \<noteq> None
      | RangeLine m \<Rightarrow>
          m 2 \<noteq> None \<and> group_int m 1 \<noteq> None \<and> group_int m 3 \<noteq> None \<and>
          (case count_after ls of
             None \<Rightarrow> False
           | Some n \<Rightarrow> n \<le> 0 \<or> name_after ls \<noteq> None)
      | SilhouetteLine \<Rightarrow> index_after ls \<noteq> None \<and> name_after ls \<noteq> None
      | KeysetLine m \<Rightarrow> group_int m 2 \<noteq> None
      | CopyLine m \<Rightarrow>
          group_int m 1 \<noteq> None \<and>
          (case load_part2ind (\<lambda>_. Inr ls) [] of
             Inl e \<Rightarrow> False
           | Inr d \<Rightarrow>
               (d = [] \<or> source_after ls \<noteq> None) \<and>
               (list_all (\<lambda>e. Some (fst (fst e)) \<noteq> source_after ls) d \<or>
                name_after ls \<noteq> None))
      | OtherLine \<Rightarrow> re_match ignore_rx l \<noteq> None)"
  by (simp add: line_ok_def cong: line_kind.case_cong option.case_cong sum.case_cong)

lemma line_ok_prefix: "i < length ls \<Longrightarrow> line_ok (ls @ ms) i = line_ok ls i"
  by (simp add: line_ok_def nth_append cong: line_kind.case_cong option.case_cong sum.case_cong)

lemma p2i_line_ok:
  fixes st :: p2i_state
  assumes run: "load_part2ind (\<lambda>_. Inr ls) [] = Inr (result st)"
    and tr: "object_name st = name_after ls" "iteration_count st = count_after ls"
      "object_index st = index_after ls" "object_to_copy st = source_after ls"
  shows "(\<exists>st'. p2i_line st l = Inr st') \<longleftrightarrow> line_ok (ls @ [l]) (length ls)"
proof (cases "kind_of l")
  case (HeaderLine m)
  then show ?thesis by (simp add: p2i_line_kind line_ok_last)
next
  case (PartLine m)
  with part_line_ok[of st m] tr show ?thesis by (simp add: p2i_line_kind line_ok_last)
next
  case (ForLine m)
  then show ?thesis
    by (auto simp: p2i_line_kind line_ok_last group_int_def split: sum.splits)
next
  case (RangeLine m)
  with range_line_ok[of st m] tr show ?thesis
    by (simp add: p2i_line_kind line_ok_last cong: option.case_cong)
next
  case SilhouetteLine
  then obtain m where "re_match silhouette_rx l = Some m"
    by (auto simp: kind_of_def split: option.splits)
  from silhouette_ignored[OF this] obtain m' where ig: "re_match ignore_rx l = Some m'" by auto
  have "(\<exists>st'. p2i_line st l = Inr st') \<longleftrightarrow> (\<exists>st'. silhouette_line st = Inr st')"
    using SilhouetteLine ig by (auto simp: p2i_line_kind split: sum.splits)
  with silhouette_line_ok[of st] tr SilhouetteLine show ?thesis by (simp add: line_ok_last)
next
  case (KeysetLine m)
  then show ?thesis
    by (auto simp: p2i_line_kind line_ok_last group_int_def split: sum.splits)
next
  case (CopyLine m)
  with copy_line_ok[of st m] tr run show ?thesis by (simp add: p2i_line_kind line_ok_last)
next
  case OtherLine
  then show ?thesis by (auto simp: p2i_line_kind line_ok_last split: option.splits)
qed

lemma p2i_run_ok:
  "(\<exists>st. for_loop p2i_line
            \<lparr>object_name = None, iteration_count = None, object_index = None,
             object_to_copy = None, result = []\<rparr> ls = Inr st)
     \<longleftrightarrow> (\<forall>i<length ls. line_ok ls i)"
proof (induction ls rule: rev_induct)
  case Nil
  then show ?case by simp
next
  case (snoc l ls)
  let ?s0 = "\<lparr>object_name = None, iteration_count = None, object_index = None,
              object_to_copy = None, result = []\<rparr>"
  have all: "(\<forall>i<length (ls @ [l]). line_ok (ls @ [l]) i)
      \<longleftrightarrow> (\<forall>i<length ls. line_ok ls i) \<and> line_ok (ls @ [l]) (length ls)"
    by (auto simp: less_Suc_eq line_ok_prefix)
  show ?case
  proof (cases "for_loop p2i_line ?s0 ls")
    case (Inl e)
    with snoc.IH show ?thesis unfolding all by (simp add: for_loop_append)
  next
    case (Inr st0)
    note pr = p2i_run[OF Inr]
    from Inr have ld: "load_part2ind (\<lambda>_. Inr ls) [] = Inr (result st0)"
      by (simp add: load_part2ind_def)
    from pr have tr: "object_name st0 = name_after ls" "iteration_count st0 = count_after ls"
      "object_index st0 = index_after ls" "object_to_copy st0 = source_after ls"
      by blast+
    from Inr snoc.IH have "\<forall>i<length ls. line_ok ls i" by blast
    moreover have "(\<exists>st. for_loop p2i_line ?s0 (ls @ [l]) = Inr st)
        \<longleftrightarrow> (\<exists>st'. p2i_line st0 l = Inr st')"
      using Inr by (cases "p2i_line st0 l") (simp_all add: for_loop_append)
    ultimately show ?thesis
      unfolding all using p2i_line_ok[OF ld tr, of l] by simp
  qed
qed

text \<open>
  Claim C2, as the code has it. For a file that can be read, \<open>load_part2ind\<close> returns
  exactly when every line of the file can be carried out after the lines before it.
  Whenever it returns, the result
  is a dictionary (no key occurs twice) in which every key is the pair of an object index, a
  number that is not negative, and a part's short name, a string; every value is the pair of
  an object name that a header \<^verbatim>\<open>% [name]\<close> of the file gives and of a readable part
  name that a line of the file gives. Key and value belong together: the dictionary holds
  the entry of \<open>k\<close> and \<open>v\<close> exactly when some line of the file gives the key \<open>k\<close>
  the value \<open>v\<close> and no later line gives \<open>k\<close> a value. So the object name of an entry
  is the name of the header above the line that defines the part, and its readable name is
  the one that this line gives the part.
\<close>

theorem load_part2ind_entries:
  assumes "readlines part2ind_filename = Inr lines"
  shows "((\<exists>d. load_part2ind readlines part2ind_filename = Inr d)
            \<longleftrightarrow> (\<forall>i<length lines. line_ok lines i)) \<and>
         (\<forall>d. load_part2ind readlines part2ind_filename = Inr d \<longrightarrow>
            distinct (map fst d) \<and>
            (\<forall>entry\<in>set d.
               0 \<le> fst (fst entry) \<and>
               fst (snd entry) \<in> set (header_names lines) \<and>
               snd (snd entry) \<in> set (readable_names lines)) \<and>
            (\<forall>k v. (k, v) \<in> set d \<longleftrightarrow>
               (\<exists>i. gives lines i k v \<and> (\<forall>j v'. i < j \<longrightarrow> \<not> gives lines j k v'))))"
proof (intro conjI allI impI)
  let ?s0 = "\<lparr>object_name = None, iteration_count = None, object_index = None,
               object_to_copy = None, result = []\<rparr>"
  have "(\<exists>d. load_part2ind readlines part2ind_filename = Inr d)
      \<longleftrightarrow> (\<exists>st. for_loop p2i_line ?s0 lines = Inr st)"
    using assms by (auto simp: load_part2ind_def split: sum.splits)
  then show "(\<exists>d. load_part2ind readlines part2ind_filename = Inr d)
      \<longleftrightarrow> (\<forall>i<length lines. line_ok lines i)"
    unfolding p2i_run_ok .
next
  fix d
  assume ret: "load_part2ind readlines part2ind_filename = Inr d"
  let ?s0 = "\<lparr>object_name = None, iteration_count = None, object_index = None,
               object_to_copy = None, result = []\<rparr>"
  let ?P = "p2i_inv (set (header_names lines)) (set (readable_names lines))"
  from assms ret obtain st where loop: "for_loop p2i_line ?s0 lines = Inr st"
    and d: "d = result st"
    by (auto simp: load_part2ind_def split: sum.splits)
  have "?P ?s0" by (simp add: p2i_inv_def)
  from p2i_run_inv[OF loop this] have inv: "?P st" .
  then show dist: "distinct (map fst d)" by (simp add: d p2i_inv_def)
  from inv show "\<forall>entry\<in>set d.
               0 \<le> fst (fst entry) \<and>
               fst (snd entry) \<in> set (header_names lines) \<and>
               snd (snd entry) \<in> set (readable_names lines)"
    unfolding d p2i_inv_def list_all_iff by simp
  fix k v
  from p2i_run[OF loop] have "map_of d k = Some v \<longleftrightarrow>
      (\<exists>i. gives lines i k v \<and> (\<forall>j v'. i < j \<longrightarrow> \<not> gives lines j k v'))"
    unfolding d by blast
  with dist show "(k, v) \<in> set d \<longleftrightarrow>
      (\<exists>i. gives lines i k v \<and> (\<forall>j v'. i < j \<longrightarrow> \<not> gives lines j k v'))"
    by (simp add: map_of_eq_Some_iff)
qed

lemmas rx_defs = re_match_def header_rx_def part_rx_def for_rx_def range_rx_def silhouette_rx_def
  keyset_rx_def copy_rx_def ignore_rx_def digits_def spaces_def long_name_def is_digit_def
  is_word_def py_isspace_def

lemma part2ind_example_result:
  "load_part2ind readlines_example ''pascal/part2ind.m''
     = Inr [((1, ''lwing''), ''aeroplane'', ''left wing''),
            ((1, ''engine_1''), ''aeroplane'', ''engine''),
            ((1, ''engine_2''), ''aeroplane'', ''engine''),
            ((2, ''silhouette''), ''bicycle'', ''silhouette''),
            ((3, ''lwing''), ''bird'', ''left wing''),
            ((3, ''engine_1''), ''bird'', ''engine''),
            ((3, ''engine_2''), ''bird'', ''engine'')]"
  by (simp add: load_part2ind_def readlines_example_def part2ind_example_def p2i_line_def rx_defs
      part_line_def range_line_def range_body_def silhouette_line_def copy_line_def copy_body_def
      int_group_def py_int_def digit_val_def read_var_def upt_rec Let_def decimal.simps
      readable_or_def readable_multiple_def)

lemmas p2i_eval = load_part2ind_def p2i_line_def rx_defs
      part_line_def range_line_def range_body_def silhouette_line_def copy_line_def copy_body_def
      int_group_def py_int_def digit_val_def read_var_def upt_rec Let_def decimal.simps
      readable_or_def readable_multiple_def

lemma gives_part_example:
  "gives part2ind_example 2 (1, ''lwing'') (''aeroplane'', ''left wing'')"
  by (simp add: gives_def part2ind_example_def name_after_def kind_of_def group_int_def p2i_eval)

lemma gives_range_example:
  "gives part2ind_example 4 (1, ''engine_2'') (''aeroplane'', ''engine'')"
  by (simp add: gives_def part2ind_example_def name_after_def count_after_def kind_of_def
      group_int_def p2i_eval)

lemma gives_silhouette_example:
  "gives part2ind_example 8 (2, ''silhouette'') (''bicycle'', ''silhouette'')"
  by (simp add: gives_def part2ind_example_def name_after_def index_after_def kind_of_def
      group_int_def p2i_eval)

lemma gives_copy_example:
  "gives part2ind_example 12 (3, ''lwing'') (''bird'', ''left wing'')"
  by (simp add: gives_def part2ind_example_def name_after_def source_after_def kind_of_def
      group_int_def p2i_eval)

text \<open>The theorem at the example file, whose seven entries begin with the left wing of the
  aeroplane: the entry that the last line copies for the bird is in the dictionary, a line
  gives the silhouette of the bicycle, and no line gives the left wing of the aeroplane the
  names of another entry; the last line can be carried out.\<close>

theorem load_part2ind_entries_witness:
  "\<exists>d. load_part2ind readlines_example ''pascal/part2ind.m'' = Inr d \<and>
       hd d = ((1, ''lwing''), ''aeroplane'', ''left wing'') \<and> length d = 7 \<and>
       distinct (map fst d) \<and>
       fst (snd (hd d)) \<in> set (header_names part2ind_example) \<and>
       snd (snd (hd d)) \<in> set (readable_names part2ind_example) \<and>
       ((3, ''lwing''), (''bird'', ''left wing'')) \<in> set d \<and>
       (\<exists>i. gives part2ind_example i (2, ''silhouette'') (''bicycle'', ''silhouette'')) \<and>
       \<not> (\<exists>i. gives part2ind_example i (1, ''lwing'') (''bird'', ''silhouette'') \<and>
                (\<forall>j v'. i < j \<longrightarrow> \<not> gives part2ind_example j (1, ''lwing'') v')) \<and>
       line_ok part2ind_example 12"
proof -
  have r: "readlines_example ''pascal/part2ind.m'' = Inr part2ind_example"
    by (simp add: readlines_example_def)
  let ?d = "[((1, ''lwing''), ''aeroplane'', ''left wing''),
            ((1, ''engine_1''), ''aeroplane'', ''engine''),
            ((1, ''engine_2''), ''aeroplane'', ''engine''),
            ((2, ''silhouette''), ''bicycle'', ''silhouette''),
            ((3, ''lwing''), ''bird'', ''left wing''),
            ((3, ''engine_1''), ''bird'', ''engine''),
            ((3, ''engine_2''), ''bird'', ''engine'')] :: (raw_key \<times> name_pair) list"
  note t0 = load_part2ind_entries[where readlines = readlines_example
      and part2ind_filename = "''pascal/part2ind.m''", OF r]
  from t0 part2ind_example_result have ok: "\<forall>i<length part2ind_example. line_ok part2ind_example i"
    by blast
  from t0 part2ind_example_result have t: "distinct (map fst ?d) \<and>
            (\<forall>entry\<in>set ?d.
               0 \<le> fst (fst entry) \<and>
               fst (snd entry) \<in> set (header_names part2ind_example) \<and>
               snd (snd entry) \<in> set (readable_names part2ind_example)) \<and>
            (\<forall>k v. (k, v) \<in> set ?d \<longleftrightarrow>
               (\<exists>i. gives part2ind_example i k v \<and>
                    (\<forall>j v'. i < j \<longrightarrow> \<not> gives part2ind_example j k v')))"
    by blast
  from t have "distinct (map fst ?d)" by (rule conjunct1)
  moreover from t have "\<forall>entry\<in>set ?d.
            0 \<le> fst (fst entry) \<and> fst (snd entry) \<in> set (header_names part2ind_example) \<and>
            snd (snd entry) \<in> set (readable_names part2ind_example)"
    by blast
  then have "fst (snd (hd ?d)) \<in> set (header_names part2ind_example) \<and>
       snd (snd (hd ?d)) \<in> set (readable_names part2ind_example)"
    by (simp del: list.set set_simps add: list.set(2)[of "((1, ''lwing''), ''aeroplane'', ''left wing'')"])
  moreover
  from t have iff: "(k, v) \<in> set ?d \<longleftrightarrow>
      (\<exists>i. gives part2ind_example i k v \<and>
           (\<forall>j v'. i < j \<longrightarrow> \<not> gives part2ind_example j k v'))" for k v
    by blast
  have len: "length part2ind_example = 13" by (simp add: part2ind_example_def)
  have "\<not> gives part2ind_example j k v'" if "12 < j" for j k v'
    using that gives_bound[of part2ind_example j k v'] len by auto
  with gives_copy_example
  have "\<exists>i. gives part2ind_example i (3, ''lwing'') (''bird'', ''left wing'') \<and>
           (\<forall>j v'. i < j \<longrightarrow> \<not> gives part2ind_example j (3, ''lwing'') v')"
    by blast
  then have "((3, ''lwing''), (''bird'', ''left wing'')) \<in> set ?d" by (simp only: iff)
  moreover
  have "((2, ''silhouette''), (''bicycle'', ''silhouette'')) \<in> set ?d" by simp
  then have "\<exists>i. gives part2ind_example i (2, ''silhouette'') (''bicycle'', ''silhouette'')"
    unfolding iff by blast
  moreover
  have "((1, ''lwing''), (''bird'', ''silhouette'')) \<notin> set ?d" by simp
  then have "\<not> (\<exists>i. gives part2ind_example i (1, ''lwing'') (''bird'', ''silhouette'') \<and>
                (\<forall>j v'. i < j \<longrightarrow> \<not> gives part2ind_example j (1, ''lwing'') v'))"
    unfolding iff .
  moreover
  from ok len have "line_ok part2ind_example 12" by simp
  ultimately show ?thesis using part2ind_example_result by simp
qed

text \<open>
  Claim C2 as stated makes the key a pair of two numbers, object index and part index. The
  line \<^verbatim>\<open>pimap{1}('lwing') = 3; % left wing\<close> of the example file has the short name
  \<open>lwing\<close> in group 2 and the part index 3 in group 3. In the dictionary that is returned
  for the file its key is (1, 'lwing'): the second component is the short name, which is
  no number, and the part index 3 is in no key.
\<close>

theorem load_part2ind_key_counterexample:
  "the (re_match part_rx (part2ind_example ! 2)) 2 = Some ''lwing'' \<and>
   int_group (the (re_match part_rx (part2ind_example ! 2))) 3 = Inr 3 \<and>
   load_part2ind readlines_example ''pascal/part2ind.m''
     = Inr [((1, ''lwing''), ''aeroplane'', ''left wing''),
            ((1, ''engine_1''), ''aeroplane'', ''engine''),
            ((1, ''engine_2''), ''aeroplane'', ''engine''),
            ((2, ''silhouette''), ''bicycle'', ''silhouette''),
            ((3, ''lwing''), ''bird'', ''left wing''),
            ((3, ''engine_1''), ''bird'', ''engine''),
            ((3, ''engine_2''), ''bird'', ''engine'')] \<and>
   py_int ''lwing'' = Inl ValueError"
proof -
  have "the (re_match part_rx (part2ind_example ! 2)) 2 = Some ''lwing''"
    "int_group (the (re_match part_rx (part2ind_example ! 2))) 3 = Inr 3"
    by (simp_all add: part2ind_example_def rx_defs int_group_def py_int_def digit_val_def)
  moreover have "py_int ''lwing'' = Inl ValueError"
    by (simp add: py_int_def is_digit_def)
  ultimately show ?thesis using part2ind_example_result by simp
qed

end
